theory Spec2Isabelle
  imports Main "HOL-Library.AList" "HOL-Library.List_Lexorder" "HOL-Library.Code_Target_Nat"
begin

section \<open>Text\<close>

text \<open>
  A Python \<open>str\<close> is a sequence of Unicode code points; a code point is a natural
  number here, so \<open>len\<close> is \<open>length\<close> and \<open>s[i]\<close> is \<open>s ! i\<close>. ASCII literals
  of the script are written \<open>U ''func''\<close>.
\<close>

type_synonym ustr = "nat list"

abbreviation U :: "string \<Rightarrow> ustr" where
  "U s \<equiv> map of_char s"

definition LBRACE :: nat where "LBRACE = 123"
definition RBRACE :: nat where "RBRACE = 125"
definition NEWLINE :: nat where "NEWLINE = 10"

text \<open>\<open>s[i:j]\<close> for indices \<open>0 \<le> i\<close>, \<open>0 \<le> j\<close>: Python clamps both to the length.\<close>

definition slice :: "'a list \<Rightarrow> nat \<Rightarrow> nat \<Rightarrow> 'a list" where
  "slice s i j = take (j - i) (drop i s)"

text \<open>
  The whitespace of \<open>\s\<close> and of \<open>str.strip()\<close>: the code points for which
  \<open>str.isspace\<close> holds.
\<close>

definition is_space :: "nat \<Rightarrow> bool" where
  "is_space c \<longleftrightarrow>
     (9 \<le> c \<and> c \<le> 13) \<or> (28 \<le> c \<and> c \<le> 32) \<or> c = 133 \<or> c = 160 \<or> c = 5760 \<or>
     (8192 \<le> c \<and> c \<le> 8202) \<or> c = 8232 \<or> c = 8233 \<or> c = 8239 \<or> c = 8287 \<or>
     c = 12288"

definition strip :: "ustr \<Rightarrow> ustr" where
  "strip s = rev (dropWhile is_space (rev (dropWhile is_space s)))"

text \<open>
  \<open>str.lower()\<close>. The script applies it to function names only, and a name is an
  ASCII identifier (group 2 of the header pattern), where \<open>lower\<close> maps \<open>A\<close>..\<open>Z\<close>
  to \<open>a\<close>..\<open>z\<close> and keeps every other character.
\<close>

definition lower_char :: "nat \<Rightarrow> nat" where
  "lower_char c = (if 65 \<le> c \<and> c \<le> 90 then c + 32 else c)"

definition lower :: "ustr \<Rightarrow> ustr" where
  "lower s = map lower_char s"

text \<open>\<open>needle in haystack\<close> on strings: \<open>needle\<close> occurs as a contiguous run.\<close>

fun contains :: "'a list \<Rightarrow> 'a list \<Rightarrow> bool" where
  "contains [] needle = (needle = [])"
| "contains (x # xs) needle = (take (length needle) (x # xs) = needle \<or> contains xs needle)"


section \<open>Regular expressions of the \<open>re\<close> module\<close>

text \<open>
  The part of the pattern language that the script's patterns use. Every starred
  item of those patterns is a single character class. \<open>run\<close> lists the ways a
  pattern can match at the front of a text, in the order in which the backtracking
  matcher of \<open>re\<close> tries them (greedy: longest repetition first, an optional part
  taken before it is skipped, alternatives left to right); each way is the text left
  over together with the groups captured. The first entry is the match \<open>re\<close> reports.
\<close>

datatype citem = Ch nat | Rg nat nat | Pr "nat \<Rightarrow> bool"

datatype cls = AnyChar | OneOf "citem list" | NoneOf "citem list"

datatype re =
    Eps
  | Sym cls
  | Str ustr
  | Star cls
  | Plus cls
  | Opt re
  | Seq re re
  | Alt re re
  | Grp nat re

fun in_item :: "citem \<Rightarrow> nat \<Rightarrow> bool" where
  "in_item (Ch a) c = (c = a)"
| "in_item (Rg a b) c = (a \<le> c \<and> c \<le> b)"
| "in_item (Pr p) c = p c"

fun in_cls :: "cls \<Rightarrow> nat \<Rightarrow> bool" where
  "in_cls AnyChar c = (c \<noteq> NEWLINE)"
| "in_cls (OneOf items) c = list_ex (\<lambda>i. in_item i c) items"
| "in_cls (NoneOf items) c = (\<not> list_ex (\<lambda>i. in_item i c) items)"

type_synonym groups = "nat \<rightharpoonup> ustr"

text \<open>
  \<open>repeats k s g\<close>: the text left after \<open>k\<close>, \<open>k - 1\<close>, ... characters of \<open>s\<close>
  have been taken by a greedy repetition, down to (and without) \<open>lo - 1\<close>.
\<close>

definition repeats :: "nat \<Rightarrow> cls \<Rightarrow> ustr \<Rightarrow> groups \<Rightarrow> (ustr \<times> groups) list" where
  "repeats lo c s g =
     map (\<lambda>k. (drop k s, g)) (rev [lo ..< Suc (length (takeWhile (in_cls c) s))])"

fun run :: "re \<Rightarrow> ustr \<times> groups \<Rightarrow> (ustr \<times> groups) list" where
  "run Eps st = [st]"
| "run (Sym c) (s, g) = (case s of [] \<Rightarrow> [] | x # xs \<Rightarrow> if in_cls c x then [(xs, g)] else [])"
| "run (Str w) (s, g) = (if take (length w) s = w then [(drop (length w) s, g)] else [])"
| "run (Star c) (s, g) = repeats 0 c s g"
| "run (Plus c) (s, g) = repeats 1 c s g"
| "run (Opt r) st = run r st @ [st]"
| "run (Seq r1 r2) st = concat (map (run r2) (run r1 st))"
| "run (Alt r1 r2) st = run r1 st @ run r2 st"
| "run (Grp n r) (s, g) =
     map (\<lambda>(s', g'). (s', g'(n \<mapsto> take (length s - length s') s))) (run r (s, g))"

definition seqs :: "re list \<Rightarrow> re" where
  "seqs rs = foldr Seq rs Eps"

definition alts :: "re list \<Rightarrow> re" where
  "alts rs = foldr Alt (butlast rs) (last rs)"

text \<open>\<open>re.match(pattern, s)\<close> as a truth value: the pattern matches at the start of \<open>s\<close>.\<close>

definition re_match :: "re \<Rightarrow> ustr \<Rightarrow> bool" where
  "re_match r s \<longleftrightarrow> run r (s, Map.empty) \<noteq> []"

record rmatch =
  m_start :: nat
  m_end :: nat
  m_groups :: groups

text \<open>The leftmost match at or after position \<open>i\<close>.\<close>

function search :: "re \<Rightarrow> ustr \<Rightarrow> nat \<Rightarrow> rmatch option" where
  "search r c i =
     (if length c < i then None
      else (case run r (drop i c, Map.empty) of
              (rest, g) # _ \<Rightarrow> Some \<lparr>m_start = i, m_end = length c - length rest, m_groups = g\<rparr>
            | [] \<Rightarrow> search r c (Suc i)))"
  by pat_completeness auto
termination
  by (relation "measure (\<lambda>(r, c, i). Suc (length c) - i)") auto

lemma search_start: "search r c i = Some m \<Longrightarrow> i \<le> m_start m \<and> m_start m \<le> length c"
proof (induction r c i rule: search.induct)
  case (1 r c i)
  show ?case
  proof (cases "length c < i")
    case True
    with "1.prems" show ?thesis by simp
  next
    case False
    show ?thesis
    proof (cases "run r (drop i c, Map.empty)")
      case Nil
      with False "1.prems" have "search r c (Suc i) = Some m" by simp
      with "1.IH" False Nil show ?thesis by fastforce
    next
      case (Cons a list)
      with False "1.prems" show ?thesis by (cases a) auto
    qed
  qed
qed

text \<open>
  \<open>re.finditer\<close> and \<open>re.findall\<close>: the matches from left to right, each search
  starting where the previous match ended. The patterns of the script begin with a
  literal word and never match the empty text; after an empty match the search would
  move on by one character.
\<close>

function finditer :: "re \<Rightarrow> ustr \<Rightarrow> nat \<Rightarrow> rmatch list" where
  "finditer r c i =
     (case search r c i of
        None \<Rightarrow> []
      | Some m \<Rightarrow> m # finditer r c (max (m_end m) (Suc (m_start m))))"
  by pat_completeness auto
termination
proof (relation "measure (\<lambda>(r, c, i). Suc (length c) - i)")
  show "wf (measure (\<lambda>(r, c, i). Suc (length c) - i))" by simp
next
  fix r c i m
  assume "search r c i = Some m"
  then have "i \<le> m_start m \<and> m_start m \<le> length c" by (rule search_start)
  then show "((r, c, max (m_end m) (Suc (m_start m))), (r, c, i))
               \<in> measure (\<lambda>(r, c, i). Suc (length c) - i)"
    by auto
qed

text \<open>\<open>match.group(k)\<close>: \<open>None\<close> when the group took no part in the match.\<close>

definition match_group :: "rmatch \<Rightarrow> nat \<Rightarrow> ustr option" where
  "match_group m k = m_groups m k"


section \<open>Extracting the functions\<close>

text \<open>
  The header pattern of \<open>_extract_functions\<close>:
  \<^verbatim>\<open>func\s+(\([^)]*\))?\s*([a-zA-Z_][a-zA-Z0-9_]*)\s*\([^)]*\)([^{]*)?{\<close>
\<close>

definition WS :: cls where
  "WS = OneOf [Pr is_space]"

definition LPAREN :: nat where "LPAREN = 40"
definition RPAREN :: nat where "RPAREN = 41"

definition ident_start :: cls where
  "ident_start = OneOf [Rg 97 122, Rg 65 90, Ch 95]"

definition ident_char :: cls where
  "ident_char = OneOf [Rg 97 122, Rg 65 90, Rg 48 57, Ch 95]"

definition function_pattern :: re where
  "function_pattern = seqs
     [Str (U ''func''), Plus WS,
      Opt (Grp 1 (seqs [Sym (OneOf [Ch LPAREN]), Star (NoneOf [Ch RPAREN]), Sym (OneOf [Ch RPAREN])])),
      Star WS,
      Grp 2 (seqs [Sym ident_start, Star ident_char]),
      Star WS,
      Sym (OneOf [Ch LPAREN]), Star (NoneOf [Ch RPAREN]), Sym (OneOf [Ch RPAREN]),
      Opt (Grp 3 (Star (NoneOf [Ch LBRACE]))),
      Sym (OneOf [Ch LBRACE])]"

text \<open>
  The brace scan of \<open>_extract_functions\<close>:
  \<^verbatim>\<open>
  while pos < len(content):
      if content[pos] == '{':
          brace_count += 1
      elif content[pos] == '}':
          brace_count -= 1
          if brace_count == 0:
              break
      pos += 1
  \<close>
  The result is the pair of \<open>pos\<close> and \<open>brace_count\<close> when the loop is left.
\<close>

function scan :: "ustr \<Rightarrow> nat \<Rightarrow> int \<Rightarrow> nat \<times> int" where
  "scan content pos brace_count =
     (if pos < length content then
        (if content ! pos = LBRACE then scan content (pos + 1) (brace_count + 1)
         else if content ! pos = RBRACE then
           (if brace_count - 1 = 0 then (pos, brace_count - 1)
            else scan content (pos + 1) (brace_count - 1))
         else scan content (pos + 1) brace_count)
      else (pos, brace_count))"
  by pat_completeness auto
termination
  by (relation "measure (\<lambda>(content, pos, brace_count). length content - pos)") auto

record func_info =
  receiver :: ustr
  body :: ustr
  category :: ustr

text \<open>A Python \<open>dict\<close> with string keys, in insertion order: assigning to a key that is
  present replaces its value in place, a new key goes to the end.\<close>

type_synonym 'v dict = "(ustr \<times> 'v) list"

abbreviation dict_set :: "ustr \<Rightarrow> 'v \<Rightarrow> 'v dict \<Rightarrow> 'v dict" where
  "dict_set \<equiv> AList.update"

abbreviation dict_get :: "'v dict \<Rightarrow> ustr \<Rightarrow> 'v option" where
  "dict_get \<equiv> map_of"

abbreviation dict_keys :: "'v dict \<Rightarrow> ustr list" where
  "dict_keys d \<equiv> map fst d"


section \<open>Classifying a name\<close>

text \<open>The table of \<open>_categorize_function\<close>, in the order in which it is written.\<close>

definition dotstar :: re where
  "dotstar = Star AnyChar"

definition categories :: "(ustr \<times> re list) list" where
  "categories =
    [(U ''command'',
        [seqs [Str (U ''handle''), dotstar, Str (U ''Command'')],
         seqs [Str (U ''handle''),
               Grp 1 (alts [Str (U ''Start''), Str (U ''Help''), Str (U ''Download''),
                            Str (U ''List''), Str (U ''Cancel''), Str (U ''Tasks''),
                            Str (U ''AddTask''), Str (U ''QuickTask''), Str (U ''DelTask''),
                            Str (U ''RunTask'')])]]),
     (U ''callback'',
        [seqs [Str (U ''handle''), dotstar, Str (U ''Callback'')],
         seqs [Str (U ''handle''), dotstar, Str (U ''WithEdit'')],
         Str (U ''handleCallbackQuery'')]),
     (U ''render'',
        [seqs [Str (U ''render''), dotstar],
         seqs [Str (U ''get''), dotstar, Str (U ''Keyboard'')],
         seqs [Str (U ''get''), dotstar, Str (U ''Menu'')]]),
     (U ''util'',
        [seqs [Str (U ''format''), dotstar],
         seqs [Str (U ''escape''), dotstar],
         seqs [Str (U ''split''), dotstar],
         seqs [Str (U ''encode''), dotstar],
         seqs [Str (U ''decode''), dotstar]]),
     (U ''message'',
        [seqs [Str (U ''send''), dotstar],
         seqs [Str (U ''edit''), dotstar],
         seqs [Str (U ''answer''), dotstar]]),
     (U ''file'',
        [seqs [Str (U ''handleFile''), dotstar],
         seqs [Str (U ''handleBrowse''), dotstar],
         seqs [Str (U ''handleDownloadFile''), dotstar]]),
     (U ''task'',
        [seqs [Str (U ''handleTask''), dotstar],
         seqs [Str (U ''handleQuick''), dotstar],
         seqs [Str (U ''handleAdd''), dotstar],
         seqs [Str (U ''handleDel''), dotstar],
         seqs [Str (U ''handleRun''), dotstar]]),
     (U ''system'',
        [seqs [Str (U ''handleSystem''), dotstar],
         seqs [Str (U ''handleHealth''), dotstar],
         seqs [Str (U ''handleAlist''), dotstar]]),
     (U ''manual'',
        [seqs [Str (U ''handleManual''), dotstar],
         seqs [Str (U ''parseTime''), dotstar],
         seqs [Str (U ''callManual''), dotstar]])]"

text \<open>
  The two nested loops of \<open>_categorize_function\<close>: the inner one returns the category
  at the first pattern that matches, the outer one goes on to the next category, and
  \<open>'other'\<close> is returned when both are exhausted.
\<close>

fun match_patterns :: "re list \<Rightarrow> ustr \<Rightarrow> bool" where
  "match_patterns [] name = False"
| "match_patterns (pattern # patterns) name =
     (if re_match pattern name then True else match_patterns patterns name)"

fun categorize_loop :: "(ustr \<times> re list) list \<Rightarrow> ustr \<Rightarrow> ustr" where
  "categorize_loop [] name = U ''other''"
| "categorize_loop ((cat, patterns) # rest) name =
     (if match_patterns patterns name then cat else categorize_loop rest name)"

definition categorize_function :: "ustr \<Rightarrow> ustr" where
  "categorize_function name = categorize_loop categories name"

text \<open>
  One round of the loop over the matches in \<open>_extract_functions\<close>. Group 2 is not
  optional in the pattern, so every match has it.
\<close>

definition process_match :: "ustr \<Rightarrow> func_info dict \<Rightarrow> rmatch \<Rightarrow> func_info dict" where
  "process_match content functions m =
     (case match_group m 2 of
        None \<Rightarrow> functions
      | Some name \<Rightarrow>
         (let recv = (case match_group m 1 of None \<Rightarrow> [] | Some r \<Rightarrow> r);
              start_pos = m_start m;
              (pos, brace_count) = scan content (m_end m - 1) 0;
              function_body = slice content start_pos (pos + 1)
          in if brace_count = 0
             then dict_set name
                    \<lparr>receiver = strip recv,
                     body = function_body,
                     category = categorize_function name\<rparr> functions
             else functions))"

definition extract_functions :: "ustr \<Rightarrow> func_info dict \<Rightarrow> func_info dict" where
  "extract_functions content functions =
     foldl (process_match content) functions (finditer function_pattern content 0)"


section \<open>The file mapping\<close>

text \<open>
  \<open>_get_file_mapping\<close>. The mapping starts with its fifteen destinations, each with an
  empty list, in the order in which the script writes them.
\<close>

definition initial_mapping :: "(ustr list) dict" where
  "initial_mapping =
     [(U ''commands/base.go'', []),
      (U ''commands/download.go'', []),
      (U ''commands/file.go'', []),
      (U ''commands/task.go'', []),
      (U ''commands/system.go'', []),
      (U ''commands/help.go'', []),
      (U ''callbacks/base.go'', []),
      (U ''callbacks/menu.go'', []),
      (U ''callbacks/file_ops.go'', []),
      (U ''callbacks/download_ops.go'', []),
      (U ''callbacks/preview.go'', []),
      (U ''utils/formatter.go'', []),
      (U ''utils/message_sender.go'', []),
      (U ''utils/validator.go'', []),
      (U ''utils/encoder.go'', [])]"

text \<open>
  \<open>mapping[path].append(func_name)\<close>: the list stored under \<open>path\<close> grows at its end.
  Every path the script appends to is one of the fifteen keys.
\<close>

definition dict_append :: "ustr \<Rightarrow> ustr \<Rightarrow> (ustr list) dict \<Rightarrow> (ustr list) dict" where
  "dict_append path func_name mapping =
     map (\<lambda>(k, names). if k = path then (k, names @ [func_name]) else (k, names)) mapping"

text \<open>\<open>any(word in s for word in words)\<close>\<close>

definition any_word_in :: "ustr list \<Rightarrow> ustr \<Rightarrow> bool" where
  "any_word_in words s = list_ex (\<lambda>word. contains s word) words"

text \<open>
  One round of the loop over \<open>self.functions.items()\<close>. \<open>destination\<close> is the chain of
  \<open>if\<close>/\<open>elif\<close>: the key whose list the branch taken appends the name to, and \<open>None\<close>
  where the chain appends nothing (a category without a branch, or a \<open>util\<close> name that
  passes all four tests).
\<close>

definition destination :: "ustr \<Rightarrow> ustr \<Rightarrow> ustr option" where
  "destination func_name cat =
     (let l = lower func_name in
      if cat = U ''command'' then
        (if contains l (U ''download'') then Some (U ''commands/download.go'')
         else if any_word_in [U ''file'', U ''browse'', U ''list''] l then
           Some (U ''commands/file.go'')
         else if any_word_in [U ''task'', U ''quick'', U ''add'', U ''del'', U ''run''] l then
           Some (U ''commands/task.go'')
         else if any_word_in [U ''system'', U ''health'', U ''alist''] l then
           Some (U ''commands/system.go'')
         else if any_word_in [U ''start'', U ''help''] l then
           Some (U ''commands/help.go'')
         else Some (U ''commands/base.go''))
      else if cat = U ''callback'' then
        (if contains l (U ''menu'') then Some (U ''callbacks/menu.go'')
         else if contains l (U ''file'') then Some (U ''callbacks/file_ops.go'')
         else if contains l (U ''download'') then Some (U ''callbacks/download_ops.go'')
         else if contains l (U ''preview'') \<or> contains l (U ''manual'') then
           Some (U ''callbacks/preview.go'')
         else Some (U ''callbacks/base.go''))
      else if cat = U ''util'' then
        (if any_word_in [U ''format'', U ''escape'', U ''split''] l then
           Some (U ''utils/formatter.go'')
         else if any_word_in [U ''send'', U ''edit'', U ''answer''] l then
           Some (U ''utils/message_sender.go'')
         else if any_word_in [U ''encode'', U ''decode'', U ''path''] l then
           Some (U ''utils/encoder.go'')
         else if any_word_in [U ''parse'', U ''valid''] l then
           Some (U ''utils/validator.go'')
         else None)
      else None)"

definition assign_function :: "ustr \<Rightarrow> ustr \<Rightarrow> (ustr list) dict \<Rightarrow> (ustr list) dict" where
  "assign_function func_name cat mapping =
     (case destination func_name cat of
        None \<Rightarrow> mapping
      | Some path \<Rightarrow> dict_append path func_name mapping)"

definition get_file_mapping :: "func_info dict \<Rightarrow> (ustr list) dict" where
  "get_file_mapping functions =
     foldl (\<lambda>mapping (func_name, func_info). assign_function func_name (category func_info) mapping)
       initial_mapping functions"


section \<open>The constants of the source text\<close>

text \<open>
  \<open>_extract_constants\<close>, with the pattern \<^verbatim>\<open>const\s+(\w+)\s*=\s*([^/\n]+)\<close>. Beyond
  ASCII, \<open>\w\<close> follows the Unicode tables of the interpreter (\<open>str.isalnum\<close>); they are
  the parameter \<open>alnum\<close>. The script only counts the constants, for the report.
  \<open>_extract_types\<close> computes its matches and drops them: it changes nothing.
\<close>

definition word_char :: "(nat \<Rightarrow> bool) \<Rightarrow> cls" where
  "word_char alnum =
     OneOf [Rg 97 122, Rg 65 90, Rg 48 57, Ch 95, Pr (\<lambda>c. 128 \<le> c \<and> alnum c)]"

definition const_pattern :: "(nat \<Rightarrow> bool) \<Rightarrow> re" where
  "const_pattern alnum = seqs
     [Str (U ''const''), Plus WS, Grp 1 (Plus (word_char alnum)), Star WS,
      Sym (OneOf [Ch 61]), Star WS, Grp 2 (Plus (NoneOf [Ch 47, Ch NEWLINE]))]"

definition extract_constants :: "(nat \<Rightarrow> bool) \<Rightarrow> ustr \<Rightarrow> ustr dict \<Rightarrow> ustr dict" where
  "extract_constants alnum content constants =
     foldl (\<lambda>cs m. case (match_group m 1, match_group m 2) of
                      (Some name, Some v) \<Rightarrow> dict_set name (strip v) cs
                    | _ \<Rightarrow> cs)
       constants (finditer (const_pattern alnum) content 0)"


section \<open>Paths and the file system\<close>

text \<open>
  A \<open>pathlib\<close> path on POSIX is a root (empty, \<open>/\<close> or \<open>//\<close>) and its parts; \<open>Path\<close> reads
  a text the way \<open>pathlib\<close> does: empty parts and \<open>.\<close> are dropped, exactly two leading
  slashes are kept as the root \<open>//\<close>.
\<close>

type_synonym ppath = "ustr \<times> ustr list"

definition SLASH :: nat where "SLASH = 47"

text \<open>\<open>s.split(sep)\<close> for a separator of one character.\<close>

fun split_on :: "nat \<Rightarrow> ustr \<Rightarrow> ustr list" where
  "split_on sep [] = [[]]"
| "split_on sep (c # cs) =
     (if c = sep then [] # split_on sep cs
      else (case split_on sep cs of [] \<Rightarrow> [[c]] | w # ws \<Rightarrow> (c # w) # ws))"

text \<open>\<open>sep.join(parts)\<close>\<close>

fun sep_join :: "ustr \<Rightarrow> ustr list \<Rightarrow> ustr" where
  "sep_join sep [] = []"
| "sep_join sep [p] = p"
| "sep_join sep (p # q # ps) = p @ sep @ sep_join sep (q # ps)"

definition Path :: "ustr \<Rightarrow> ppath" where
  "Path s =
     (let k = length (takeWhile (\<lambda>c. c = SLASH) s)
      in (if k = 0 then [] else if k = 2 then [SLASH, SLASH] else [SLASH],
          filter (\<lambda>p. p \<noteq> [] \<and> p \<noteq> U ''.'') (split_on SLASH s)))"

text \<open>\<open>p / child\<close>\<close>

definition joinpath :: "ppath \<Rightarrow> ustr \<Rightarrow> ppath" where
  "joinpath p child =
     (let c = Path child in if fst c \<noteq> [] then c else (fst p, snd p @ snd c))"

text \<open>\<open>str(p)\<close> and \<open>p.name\<close>\<close>

definition path_str :: "ppath \<Rightarrow> ustr" where
  "path_str p =
     (if fst p = [] \<and> snd p = [] then U ''.'' else fst p @ sep_join [SLASH] (snd p))"

definition path_name :: "ppath \<Rightarrow> ustr" where
  "path_name p = (if snd p = [] then [] else last (snd p))"

definition path_parent :: "ppath \<Rightarrow> ppath" where
  "path_parent p = (fst p, butlast (snd p))"

text \<open>
  The file system holds, for a path, a text file or a directory; the root and the
  current directory are always there. A file holds the text that reading it gives.
  Paths are compared in the normal form of \<open>pathlib\<close>: there are no symbolic links and
  \<open>..\<close> is a name like any other. Permissions and full disks are not modelled: an
  operation fails only on a missing path, on a directory where a file is needed, or on a
  file where a directory is needed.
\<close>

datatype node = File ustr | Dir

type_synonym filesystem = "(ppath \<times> node) list"

datatype os_error =
    FileNotFoundError ustr
  | IsADirectoryError ustr
  | NotADirectoryError ustr
  | FileExistsError ustr

definition lookup :: "filesystem \<Rightarrow> ppath \<Rightarrow> node option" where
  "lookup fs p = (if snd p = [] then Some Dir else map_of fs p)"

text \<open>\<open>os.path.exists(name)\<close>; the empty name never exists.\<close>

definition os_exists :: "filesystem \<Rightarrow> ustr \<Rightarrow> bool" where
  "os_exists fs name \<longleftrightarrow> name \<noteq> [] \<and> lookup fs (Path name) \<noteq> None"

text \<open>\<open>open(name, 'r', encoding='utf-8').read()\<close>\<close>

definition read_text :: "filesystem \<Rightarrow> ustr \<Rightarrow> os_error + ustr" where
  "read_text fs name =
     (if name = [] then Inl (FileNotFoundError name)
      else (case lookup fs (Path name) of
              None \<Rightarrow> Inl (FileNotFoundError name)
            | Some Dir \<Rightarrow> Inl (IsADirectoryError name)
            | Some (File text) \<Rightarrow> Inr text))"

text \<open>
  \<open>p.mkdir(parents=True, exist_ok=True)\<close>: the directories on the way to \<open>p\<close> and \<open>p\<close>
  itself are made where they are missing; a text file in the place of one of them is an
  error. \<open>made\<close> are the parts already passed.
\<close>

fun mkdir_from :: "filesystem \<Rightarrow> ustr \<Rightarrow> ustr list \<Rightarrow> ustr list \<Rightarrow> os_error + filesystem" where
  "mkdir_from fs root made [] = Inr fs"
| "mkdir_from fs root made (part # parts) =
     (let p = (root, made @ [part]) in
      case lookup fs p of
        Some Dir \<Rightarrow> mkdir_from fs root (made @ [part]) parts
      | Some (File text) \<Rightarrow>
          Inl (if parts = [] then FileExistsError (path_str p)
               else NotADirectoryError (path_str (root, made @ part # parts)))
      | None \<Rightarrow> mkdir_from (AList.update p Dir fs) root (made @ [part]) parts)"

definition mkdir_parents :: "filesystem \<Rightarrow> ppath \<Rightarrow> os_error + filesystem" where
  "mkdir_parents fs p = mkdir_from fs (fst p) [] (snd p)"

text \<open>\<open>open(p, 'w', encoding='utf-8').write(text)\<close>: the file is made or replaced.\<close>

definition write_text :: "filesystem \<Rightarrow> ppath \<Rightarrow> ustr \<Rightarrow> os_error + filesystem" where
  "write_text fs p text =
     (if snd p = [] then Inl (IsADirectoryError (path_str p))
      else (case lookup fs (path_parent p) of
              None \<Rightarrow> Inl (FileNotFoundError (path_str p))
            | Some (File t) \<Rightarrow> Inl (NotADirectoryError (path_str p))
            | Some Dir \<Rightarrow>
               (case lookup fs p of
                  Some Dir \<Rightarrow> Inl (IsADirectoryError (path_str p))
                | _ \<Rightarrow> Inr (AList.update p (File text) fs))))"

text \<open>
  \<open>sorted(d.glob("*.go"))\<close>, as the names of the entries: the entries of the directory
  \<open>d\<close> whose name ends in \<open>.go\<close>, in the order of their names.
\<close>

definition ends_with :: "ustr \<Rightarrow> ustr \<Rightarrow> bool" where
  "ends_with s suffix \<longleftrightarrow> length suffix \<le> length s \<and> drop (length s - length suffix) s = suffix"

definition glob_go :: "filesystem \<Rightarrow> ppath \<Rightarrow> ustr list" where
  "glob_go fs d =
     (if lookup fs d = Some Dir then
        sort (map (\<lambda>(p, n). path_name p)
               (filter (\<lambda>(p, n). fst p = fst d \<and> snd p \<noteq> [] \<and> butlast (snd p) = snd d
                                 \<and> ends_with (last (snd p)) (U ''.go'')) fs))
      else [])"


section \<open>Running: output, file system and errors\<close>

text \<open>
  A statement of the script acts on the lines printed so far and on the file system, and
  either returns a value or raises an error; what was printed and written before the
  error stays.
\<close>

type_synonym world = "ustr list \<times> filesystem"

type_synonym 'a io = "world \<Rightarrow> (os_error + 'a) \<times> world"

definition io_return :: "'a \<Rightarrow> 'a io" where
  "io_return x = (\<lambda>w. (Inr x, w))"

definition io_bind :: "'a io \<Rightarrow> ('a \<Rightarrow> 'b io) \<Rightarrow> 'b io" where
  "io_bind m f = (\<lambda>w. case m w of (Inl e, w') \<Rightarrow> (Inl e, w') | (Inr x, w') \<Rightarrow> f x w')"

definition io_then :: "unit io \<Rightarrow> 'b io \<Rightarrow> 'b io" where
  "io_then m n = io_bind m (\<lambda>u. n)"

fun io_foreach :: "'a list \<Rightarrow> ('a \<Rightarrow> unit io) \<Rightarrow> unit io" where
  "io_foreach [] f = io_return ()"
| "io_foreach (x # xs) f = io_then (f x) (io_foreach xs f)"

definition print_line :: "ustr \<Rightarrow> unit io" where
  "print_line s = (\<lambda>(out, fs). (Inr (), (out @ [s], fs)))"

definition io_read :: "ustr \<Rightarrow> ustr io" where
  "io_read name = (\<lambda>(out, fs). (read_text fs name, (out, fs)))"

definition io_mkdir :: "ppath \<Rightarrow> unit io" where
  "io_mkdir p =
     (\<lambda>(out, fs). case mkdir_parents fs p of
                     Inl e \<Rightarrow> (Inl e, (out, fs))
                   | Inr fs' \<Rightarrow> (Inr (), (out, fs')))"

definition io_write :: "ppath \<Rightarrow> ustr \<Rightarrow> unit io" where
  "io_write p text =
     (\<lambda>(out, fs). case write_text fs p text of
                     Inl e \<Rightarrow> (Inl e, (out, fs))
                   | Inr fs' \<Rightarrow> (Inr (), (out, fs')))"

definition io_files :: "filesystem io" where
  "io_files = (\<lambda>(out, fs). (Inr fs, (out, fs)))"


section \<open>The helper and its three steps\<close>

record helper =
  h_source_file :: ustr
  h_target_dir :: ppath
  h_functions :: "func_info dict"
  h_constants :: "ustr dict"

text \<open>\<open>str(n)\<close> for a number that is not negative.\<close>

fun str_nat :: "nat \<Rightarrow> ustr" where
  "str_nat n = (if n < 10 then [48 + n] else str_nat (n div 10) @ [48 + n mod 10])"

declare str_nat.simps [simp del]

text \<open>Line 25 and line 39 of the script: the two lines that the analysis prints.\<close>

definition msg_analyzing :: "ustr \<Rightarrow> ustr" where
  "msg_analyzing source_file =
     [128214] @ U '' '' @ [20998, 26512, 28304, 25991, 20214] @ U '': '' @ source_file"

definition msg_analyzed :: "nat \<Rightarrow> ustr" where
  "msg_analyzed n =
     [9989] @ U '' '' @ [20998, 26512, 23436, 25104] @ U '': '' @ [25214, 21040] @ U '' '' @
     str_nat n @ U '' '' @ [20010, 20989, 25968]"

definition analyze_source_file :: "(nat \<Rightarrow> bool) \<Rightarrow> helper \<Rightarrow> helper io" where
  "analyze_source_file alnum h =
     io_then (print_line (msg_analyzing (h_source_file h)))
       (io_bind (io_read (h_source_file h)) (\<lambda>content.
          (let h' = h\<lparr>h_functions := extract_functions content (h_functions h),
                      h_constants := extract_constants alnum content (h_constants h)\<rparr>
           in io_then (print_line (msg_analyzed (length (h_functions h')))) (io_return h'))))"

text \<open>
  \<open>_generate_file\<close> (named \<open>generate_single_file\<close> here, the script's name being a
  keyword of Isabelle): nothing happens for an empty list; otherwise the text is the header
  followed by one block for each name of the list that the store has.
\<close>

definition file_header :: "ustr \<Rightarrow> ustr \<Rightarrow> ustr" where
  "file_header package_name source_file =
     U ''package '' @ package_name @ [10, 10] @ U ''// '' @ [27492, 25991, 20214, 30001,
     37325, 26500, 33050, 26412, 33258, 21160, 29983, 25104, 10] @ U ''// '' @ [28304,
     25991, 20214] @ U '': '' @ source_file @ [10, 10] @ U ''import ('' @ [10, 9] @
     U ''// TODO: '' @ [28155, 21152, 24517, 35201, 30340, 23548, 20837, 10] @ U '')'' @
     [10, 10]"

definition function_block :: "ustr \<Rightarrow> ustr \<Rightarrow> ustr" where
  "function_block func_name function_body =
     U ''// '' @ func_name @ U '' - '' @ [20174, 21407, 25991, 20214, 36801, 31227, 10] @
     function_body @ [10, 10]"

definition msg_file :: "ppath \<Rightarrow> ustr" where
  "msg_file file_path =
     U ''   '' @ [128196] @ U '' '' @ [29983, 25104, 25991, 20214] @ U '': '' @
     path_str file_path"

definition package_of :: "ustr \<Rightarrow> ustr" where
  "package_of relative_path = (case split_on SLASH relative_path of [] \<Rightarrow> [] | seg # segs \<Rightarrow> seg)"

definition file_content :: "helper \<Rightarrow> ustr \<Rightarrow> ustr list \<Rightarrow> ustr" where
  "file_content h relative_path function_names =
     file_header (package_of relative_path) (h_source_file h) @
     concat (map (\<lambda>func_name. case dict_get (h_functions h) func_name of
                                None \<Rightarrow> []
                              | Some func_info \<Rightarrow> function_block func_name (body func_info))
                function_names)"

definition generate_single_file :: "helper \<Rightarrow> ustr \<Rightarrow> ustr list \<Rightarrow> unit io" where
  "generate_single_file h relative_path function_names =
     (if function_names = [] then io_return ()
      else (let file_path = joinpath (h_target_dir h) relative_path in
            io_then (print_line (msg_file file_path))
              (io_write file_path (file_content h relative_path function_names))))"

text \<open>\<open>generate_file_structure\<close>\<close>

definition directories :: "ustr list" where
  "directories =
     [U ''interfaces'', U ''core'', U ''commands'', U ''callbacks'',
      U ''renderers'', U ''utils'', U ''config'', U ''types'']"

definition msg_structure :: "ustr" where
  "msg_structure =
     [127959, 65039] @ U ''  '' @ [29983, 25104, 26032, 30340, 25991, 20214, 32467, 26500] @
     U ''...''"

definition msg_directory :: "ppath \<Rightarrow> ustr" where
  "msg_directory dir_path =
     U ''   '' @ [128193] @ U '' '' @ [21019, 24314, 30446, 24405] @ U '': '' @
     path_str dir_path"

definition generate_file_structure :: "helper \<Rightarrow> unit io" where
  "generate_file_structure h =
     io_then (print_line msg_structure)
       (io_then
          (io_foreach directories (\<lambda>dir_name.
             (let dir_path = joinpath (h_target_dir h) dir_name in
              io_then (io_mkdir dir_path) (print_line (msg_directory dir_path)))))
          (let file_mapping = get_file_mapping (h_functions h) in
           io_foreach file_mapping (\<lambda>(file_path, function_names).
             generate_single_file h file_path function_names)))"

text \<open>
  \<open>generate_summary_report\<close>. The counts per category are kept in a dictionary and
  listed in the order of the category names; the tree lists, for each of the eight
  directories, the \<open>.go\<close> entries that the file system holds at that moment.
\<close>

definition count_categories :: "func_info dict \<Rightarrow> nat dict" where
  "count_categories functions =
     foldl (\<lambda>cats func_info.
              dict_set (category func_info)
                ((case dict_get cats (category func_info) of None \<Rightarrow> 0 | Some n \<Rightarrow> n) + 1) cats)
       [] (map snd functions)"

definition category_line :: "ustr \<times> nat \<Rightarrow> ustr" where
  "category_line item =
     U ''- '' @ fst item @ U '': '' @ str_nat (snd item) @ U '' '' @ [20010, 20989, 25968,
     10]"

definition report_head :: "ustr \<Rightarrow> nat \<Rightarrow> nat \<Rightarrow> ustr" where
  "report_head source_file n_functions n_constants =
     U ''# Telegram Handler '' @ [37325, 26500, 25688, 35201, 10, 10] @ U ''## '' @ [21407,
     22987, 25991, 20214, 20998, 26512, 10] @ U ''- '' @ [28304, 25991, 20214] @ U '': '' @
     [96] @ source_file @ [96, 10] @ U ''- '' @ [20989, 25968, 24635, 25968] @ U '': '' @
     str_nat n_functions @ [10] @ U ''- '' @ [24120, 37327, 24635, 25968] @ U '': '' @
     str_nat n_constants @ [10, 10] @ U ''## '' @ [20989, 25968, 20998, 31867, 32479, 35745,
     10]"

definition report_tree_head :: "ustr" where
  "report_tree_head =
     [10] @ U ''## '' @ [37325, 26500, 21518, 25991, 20214, 32467, 26500, 10, 10, 96, 96,
     96, 10] @ U ''telegram/'' @ [10]"

definition tree_dir_line :: "ustr \<Rightarrow> ustr" where
  "tree_dir_line dir_name =
     [9500, 9472, 9472] @ U '' '' @ dir_name @ U ''/'' @ [10]"

definition tree_file_line :: "ustr \<Rightarrow> ustr" where
  "tree_file_line file_name =
     [9474] @ U ''   '' @ [9500, 9472, 9472] @ U '' '' @ file_name @ [10]"

definition report_foot :: "ustr" where
  "report_foot =
     [96, 96, 96, 10, 10] @ U ''## '' @ [19979, 19968, 27493, 34892, 21160, 10, 10] @
     U ''1. '' @ [9989] @ U '' '' @ [24050, 23436, 25104, 32467, 26500, 21270, 25552, 21462,
     10] @ U ''2. '' @ [128260] @ U '' '' @ [38656, 35201, 25163, 21160, 35843, 25972,
     23548, 20837, 20381, 36182, 10] @ U ''3. '' @ [128260] @ U '' '' @ [38656, 35201,
     23454, 29616, 25509, 21475, 23450, 20041, 10] @ U ''4. '' @ [128260] @ U '' '' @
     [38656, 35201, 32534, 20889, 21333, 20803, 27979, 35797, 10] @ U ''5. '' @ [128260] @
     U '' '' @ [38656, 35201, 38598, 25104, 27979, 35797, 39564, 35777, 10, 10] @
     U ''## '' @ [27880, 24847, 20107, 39033, 10, 10] @ U ''- '' @ [29983, 25104, 30340,
     25991, 20214, 38656, 35201, 25163, 21160, 35843, 25972, 23548, 20837, 35821, 21477,
     10] @ U ''- '' @ [20989, 25968, 38388, 30340, 20381, 36182, 20851, 31995, 38656, 35201,
     37325, 26032, 25972, 29702, 10] @ U ''- '' @ [24314, 35758, 36880, 27493, 36801, 31227,
     65292, 20445, 25345, 21407, 25991, 20214, 20316, 20026, 22791, 20221, 10]"

definition msg_report :: "ppath \<Rightarrow> ustr" where
  "msg_report report_path =
     [128202] @ U '' '' @ [29983, 25104, 37325, 26500, 25253, 21578] @ U '': '' @
     path_str report_path"

definition report_tree :: "helper \<Rightarrow> filesystem \<Rightarrow> ustr" where
  "report_tree h fs =
     concat (map (\<lambda>dir_name.
                    (let dir_path = joinpath (h_target_dir h) dir_name in
                     tree_dir_line dir_name @
                     (if lookup fs dir_path \<noteq> None
                      then concat (map tree_file_line (glob_go fs dir_path))
                      else [])))
               directories)"

definition report_content :: "helper \<Rightarrow> filesystem \<Rightarrow> ustr" where
  "report_content h fs =
     report_head (h_source_file h) (length (h_functions h)) (length (h_constants h)) @
     concat (map category_line (sort_key fst (count_categories (h_functions h)))) @
     report_tree_head @ report_tree h fs @ report_foot"

definition generate_summary_report :: "helper \<Rightarrow> unit io" where
  "generate_summary_report h =
     (let report_path = joinpath (h_target_dir h) (U ''REFACTORING_SUMMARY.md'') in
      io_then (print_line (msg_report report_path))
        (io_bind io_files (\<lambda>fs. io_write report_path (report_content h fs))))"


section \<open>The command line\<close>

definition msg_usage :: "ustr" where
  "msg_usage =
     [29992, 27861] @ U '': python3 refactor_telegram.py <'' @ [28304, 25991, 20214, 36335,
     24452] @ U ''> <'' @ [30446, 26631, 30446, 24405] @ U ''>''"

definition msg_example :: "ustr" where
  "msg_example =
     [31034, 20363] @
     U '': python3 refactor_telegram.py internal/api/handlers/telegram.go internal/api/handlers/telegram/''"

definition msg_not_found :: "ustr \<Rightarrow> ustr" where
  "msg_not_found source_file =
     [10060] @ U '' '' @ [28304, 25991, 20214, 19981, 23384, 22312] @ U '': '' @ source_file"

definition msg_start :: "ustr" where
  "msg_start =
     [128640] @ U '' '' @ [24320, 22987] @ U ''Telegram Handler'' @ [37325, 26500] @
     U ''...''"

definition msg_source :: "ustr \<Rightarrow> ustr" where
  "msg_source source_file =
     [128193] @ U '' '' @ [28304, 25991, 20214] @ U '': '' @ source_file"

definition msg_target :: "ustr \<Rightarrow> ustr" where
  "msg_target target_dir =
     [128193] @ U '' '' @ [30446, 26631, 30446, 24405] @ U '': '' @ target_dir"

definition msg_done :: "ustr list" where
  "msg_done =
     [[9989] @ U '' '' @ [37325, 26500, 21161, 25163, 25191, 34892, 23436, 25104] @ U ''!'',
     [], [128203] @ U '' '' @ [19979, 19968, 27493] @ U '':'', U ''1. '' @ [26816, 26597,
     29983, 25104, 30340, 25991, 20214, 24182, 35843, 25972, 23548, 20837, 35821, 21477],
     U ''2. '' @ [23454, 29616, 25509, 21475, 23450, 20041], U ''3. '' @ [32534, 20889,
     21333, 20803, 27979, 35797], U ''4. '' @ [36880, 27493, 26367, 25442, 21407, 26377,
     23454, 29616], U ''5. '' @ [36816, 34892, 38598, 25104, 27979, 35797, 39564, 35777,
     21151, 33021]]"

definition msg_error :: "ustr \<Rightarrow> ustr" where
  "msg_error e =
     [10060] @ U '' '' @ [25191, 34892, 36807, 31243, 20013, 21457, 29983, 38169, 35823] @
     U '': '' @ e"

text \<open>
  \<open>str(e)\<close> for the errors of the file system, with the file name between quotes (as
  \<open>repr\<close> shows a name that has no quote, backslash or unprintable character).
\<close>

definition quoted :: "ustr \<Rightarrow> ustr" where
  "quoted s = [39] @ s @ [39]"

fun str_error :: "os_error \<Rightarrow> ustr" where
  "str_error (FileNotFoundError name) = U ''[Errno 2] No such file or directory: '' @ quoted name"
| "str_error (IsADirectoryError name) = U ''[Errno 21] Is a directory: '' @ quoted name"
| "str_error (NotADirectoryError name) = U ''[Errno 20] Not a directory: '' @ quoted name"
| "str_error (FileExistsError name) = U ''[Errno 17] File exists: '' @ quoted name"

text \<open>The body of the \<open>try\<close> in \<open>main\<close>.\<close>

definition pipeline :: "(nat \<Rightarrow> bool) \<Rightarrow> helper \<Rightarrow> unit io" where
  "pipeline alnum helper0 =
     io_bind (analyze_source_file alnum helper0) (\<lambda>helper1.
       io_then (print_line [])
         (io_then (generate_file_structure helper1)
            (io_then (print_line [])
               (io_then (generate_summary_report helper1)
                  (io_then (print_line [])
                     (io_foreach msg_done print_line))))))"

text \<open>
  \<open>main\<close>, for the argument vector \<open>argv\<close> (the script's name first) and a file system:
  the exit status, the lines printed and the file system left. Returning from \<open>main\<close>
  ends the process with status 0; the two \<open>sys.exit(1)\<close> before the \<open>try\<close> and the one in
  the \<open>except\<close> end it with status 1.
\<close>

definition main :: "(nat \<Rightarrow> bool) \<Rightarrow> ustr list \<Rightarrow> filesystem \<Rightarrow> int \<times> ustr list \<times> filesystem" where
  "main alnum argv fs =
     (if length argv \<noteq> 3 then (1, [msg_usage, msg_example], fs)
      else
        (let source_file = argv ! 1; target_dir = argv ! 2 in
         if \<not> os_exists fs source_file then (1, [msg_not_found source_file], fs)
         else
           (let out0 = [msg_start, msg_source source_file, msg_target target_dir, []];
                helper0 = \<lparr>h_source_file = source_file, h_target_dir = Path target_dir,
                            h_functions = [], h_constants = []\<rparr>
            in case pipeline alnum helper0 (out0, fs) of
                 (Inr u, (out, fs')) \<Rightarrow> (0, out, fs')
               | (Inl e, (out, fs')) \<Rightarrow> (1, out @ [msg_error (str_error e)], fs'))))"


section \<open>Evaluating the model on a given text\<close>

text \<open>The equations that the simplifier needs to run the matcher on a concrete text.\<close>

lemmas regex_eval =
  function_pattern_def seqs_def alts_def repeats_def WS_def is_space_def ident_start_def
  ident_char_def LPAREN_def RPAREN_def LBRACE_def RBRACE_def NEWLINE_def dotstar_def
  re_match_def match_group_def finditer.simps search.simps

lemmas extract_eval =
  regex_eval extract_functions_def process_match_def scan.simps slice_def strip_def
  categorize_function_def categories_def


section \<open>What a pattern matches\<close>

text \<open>
  The words a pattern matches in full, independently of the order in which the matcher
  tries them. \<open>re.match\<close> asks for such a word at the start of the text only.
\<close>

primrec lang :: "re \<Rightarrow> ustr set" where
  "lang Eps = {[]}"
| "lang (Sym c) = {[x] | x. in_cls c x}"
| "lang (Str w) = {w}"
| "lang (Star c) = {w. list_all (in_cls c) w}"
| "lang (Plus c) = {w. w \<noteq> [] \<and> list_all (in_cls c) w}"
| "lang (Opt r) = insert [] (lang r)"
| "lang (Seq r1 r2) = {u @ v | u v. u \<in> lang r1 \<and> v \<in> lang r2}"
| "lang (Alt r1 r2) = lang r1 \<union> lang r2"
| "lang (Grp n r) = lang r"

lemma takeWhile_prefix_iff:
  "(\<exists>k. lo \<le> k \<and> k \<le> length (takeWhile P s) \<and> s' = drop k s)
     \<longleftrightarrow> (\<exists>u. s = u @ s' \<and> lo \<le> length u \<and> list_all P u)"
proof
  assume "\<exists>k. lo \<le> k \<and> k \<le> length (takeWhile P s) \<and> s' = drop k s"
  then obtain k where k: "lo \<le> k" "k \<le> length (takeWhile P s)" "s' = drop k s" by blast
  have "take k s = take k (takeWhile P s)"
    using k(2) by (metis takeWhile_dropWhile_id take_append diff_is_0_eq take_0 append_Nil2)
  then have "set (take k s) \<subseteq> set (takeWhile P s)" by (metis set_take_subset)
  then have "list_all P (take k s)" by (auto simp: list_all_iff dest: set_takeWhileD)
  moreover have "length (take k s) = k" using k(2) length_takeWhile_le[of P s] by simp
  ultimately show "\<exists>u. s = u @ s' \<and> lo \<le> length u \<and> list_all P u"
    using k by (intro exI[of _ "take k s"]) simp
next
  assume "\<exists>u. s = u @ s' \<and> lo \<le> length u \<and> list_all P u"
  then obtain u where u: "s = u @ s'" "lo \<le> length u" "list_all P u" by blast
  have "length u \<le> length (takeWhile P s)"
    using u(1,3) by (simp add: list_all_iff takeWhile_append2)
  then show "\<exists>k. lo \<le> k \<and> k \<le> length (takeWhile P s) \<and> s' = drop k s"
    using u by (intro exI[of _ "length u"]) simp
qed

lemma set_repeats:
  "fst ` set (repeats lo c s g) = {s'. \<exists>u. s = u @ s' \<and> lo \<le> length u \<and> list_all (in_cls c) u}"
proof -
  have "fst ` set (repeats lo c s g) = {s'. \<exists>k. lo \<le> k \<and> k \<le> length (takeWhile (in_cls c) s) \<and> s' = drop k s}"
  proof -
    have "set (rev [lo ..< Suc (length (takeWhile (in_cls c) s))])
            = {k. lo \<le> k \<and> k \<le> length (takeWhile (in_cls c) s)}"
      by (auto simp del: upt_Suc)
    then show ?thesis
      unfolding repeats_def by (auto simp: image_iff simp del: upt_Suc set_rev set_upt)
  qed
  then show ?thesis by (simp only: takeWhile_prefix_iff)
qed

lemma run_lang: "fst ` set (run r (s, g)) = {s'. \<exists>u \<in> lang r. s = u @ s'}"
proof (induction r arbitrary: s g)
  case Eps
  show ?case by auto
next
  case (Sym c)
  show ?case by (cases s) auto
next
  case (Str w)
  have "take (length w) s = w \<longleftrightarrow> (\<exists>s'. s = w @ s')"
    by (metis append_take_drop_id append_eq_conv_conj)
  then show ?case by (auto simp: append_eq_conv_conj)
next
  case (Star c)
  show ?case using set_repeats[of 0 c s g] by auto
next
  case (Plus c)
  have "\<And>u::ustr. (1 \<le> length u) = (u \<noteq> [])" by (simp add: Suc_le_eq)
  then show ?case using set_repeats[of 1 c s g] by auto
next
  case (Opt r)
  then show ?case by (auto simp: image_Un)
next
  case (Seq r1 r2)
  have "fst ` set (run (Seq r1 r2) (s, g)) = (\<Union>st \<in> set (run r1 (s, g)). fst ` set (run r2 st))"
    by auto
  also have "\<dots> = (\<Union>st \<in> set (run r1 (s, g)). {s'. \<exists>v \<in> lang r2. fst st = v @ s'})"
  proof -
    have "\<And>st. fst ` set (run r2 st) = {s'. \<exists>v \<in> lang r2. fst st = v @ s'}"
    proof -
      fix st :: "ustr \<times> groups"
      show "fst ` set (run r2 st) = {s'. \<exists>v \<in> lang r2. fst st = v @ s'}"
        using Seq.IH(2)[of "fst st" "snd st"] by simp
    qed
    then show ?thesis by simp
  qed
  also have "\<dots> = (\<Union>s1 \<in> fst ` set (run r1 (s, g)). {s'. \<exists>v \<in> lang r2. s1 = v @ s'})"
    by auto
  also have "\<dots> = {s'. \<exists>u \<in> lang (Seq r1 r2). s = u @ s'}"
    unfolding Seq.IH(1) by fastforce
  finally show ?case .
next
  case (Alt r1 r2)
  then show ?case by (auto simp: image_Un)
next
  case (Grp n r)
  have "fst ` set (run (Grp n r) (s, g)) = fst ` set (run r (s, g))"
    by (force simp: image_iff split: prod.splits)
  then show ?case using Grp.IH by simp
qed

lemma re_match_lang: "re_match r s \<longleftrightarrow> (\<exists>u v. s = u @ v \<and> u \<in> lang r)"
proof -
  have "re_match r s \<longleftrightarrow> fst ` set (run r (s, Map.empty)) \<noteq> {}"
    by (simp add: re_match_def)
  then show ?thesis unfolding run_lang by auto
qed


section \<open>Classification is total and takes the first category that matches\<close>

lemma match_patterns_iff: "match_patterns ps name \<longleftrightarrow> (\<exists>p \<in> set ps. re_match p name)"
  by (induction ps) auto

lemma categorize_loop_find:
  "categorize_loop cs name =
     (case find (\<lambda>(cat, ps). match_patterns ps name) cs of
        None \<Rightarrow> U ''other'' | Some (cat, ps) \<Rightarrow> cat)"
  by (induction cs) (auto split: prod.splits)

lemma categorize_loop_range:
  "categorize_loop cs name \<in> insert (U ''other'') (fst ` set cs)"
proof (induction cs)
  case Nil
  show ?case by simp
next
  case (Cons a cs)
  obtain cat ps where a: "a = (cat, ps)" by (cases a)
  show ?case
  proof (cases "match_patterns ps name")
    case True
    then show ?thesis by (simp add: a)
  next
    case False
    then have "categorize_loop (a # cs) name = categorize_loop cs name" by (simp add: a)
    with Cons.IH show ?thesis by auto
  qed
qed

lemma category_names:
  "map fst categories =
     [U ''command'', U ''callback'', U ''render'', U ''util'', U ''message'',
      U ''file'', U ''task'', U ''system'', U ''manual'']"
  by (simp add: categories_def)

text \<open>
  C2. \<open>_categorize_function\<close> returns, for every name, one label of the closed set; it
  is the label of the first entry of the table, in the table's order, one of whose
  patterns matches a prefix of the name (a word of the pattern followed by anything),
  and \<open>other\<close> when no entry has such a pattern. Being a function of the name alone, it
  gives the same label whenever it is asked about the same name.
\<close>

theorem categorize_function_total_first_match:
  "categorize_function name \<in>
     {U ''command'', U ''callback'', U ''render'', U ''util'', U ''message'',
      U ''file'', U ''task'', U ''system'', U ''manual'', U ''other''}
   \<and> categorize_function name =
     (case find (\<lambda>(cat, patterns). \<exists>p \<in> set patterns. \<exists>u v. name = u @ v \<and> u \<in> lang p)
             categories of
        None \<Rightarrow> U ''other''
      | Some (cat, patterns) \<Rightarrow> cat)"
proof
  have "categorize_function name \<in> insert (U ''other'') (set (map fst categories))"
    unfolding categorize_function_def using categorize_loop_range[of categories name] by simp
  then show "categorize_function name \<in>
     {U ''command'', U ''callback'', U ''render'', U ''util'', U ''message'',
      U ''file'', U ''task'', U ''system'', U ''manual'', U ''other''}"
    unfolding category_names by auto
next
  have "(\<lambda>(cat, ps). match_patterns ps name)
          = (\<lambda>(cat, patterns). \<exists>p \<in> set patterns. \<exists>u v. name = u @ v \<and> u \<in> lang p)"
    by (simp add: fun_eq_iff match_patterns_iff re_match_lang)
  then have "find (\<lambda>(cat, ps). match_patterns ps name) categories
          = find (\<lambda>(cat, patterns). \<exists>p \<in> set patterns. \<exists>u v. name = u @ v \<and> u \<in> lang p)
              categories"
    by (rule arg_cong)
  then show "categorize_function name =
     (case find (\<lambda>(cat, patterns). \<exists>p \<in> set patterns. \<exists>u v. name = u @ v \<and> u \<in> lang p)
             categories of
        None \<Rightarrow> U ''other''
      | Some (cat, patterns) \<Rightarrow> cat)"
    unfolding categorize_function_def categorize_loop_find by (rule arg_cong)
qed


section \<open>The brace scan stops at the matching brace\<close>

text \<open>
  Texts whose braces are balanced: every opening brace has its closing brace later on
  and the blocks nest; the other characters are free.
\<close>

inductive balanced :: "ustr \<Rightarrow> bool" where
  empty: "balanced []"
| plain: "c \<noteq> LBRACE \<Longrightarrow> c \<noteq> RBRACE \<Longrightarrow> balanced w \<Longrightarrow> balanced (c # w)"
| block: "balanced u \<Longrightarrow> balanced v \<Longrightarrow> balanced (LBRACE # u @ RBRACE # v)"

declare scan.simps [simp del]

lemma scan_open:
  "pos < length c \<Longrightarrow> c ! pos = LBRACE \<Longrightarrow> scan c pos d = scan c (pos + 1) (d + 1)"
  by (subst scan.simps) simp

lemma scan_close:
  "pos < length c \<Longrightarrow> c ! pos = RBRACE \<Longrightarrow> d \<noteq> 1 \<Longrightarrow> scan c pos d = scan c (pos + 1) (d - 1)"
  by (subst scan.simps) (simp add: LBRACE_def RBRACE_def)

lemma scan_stop:
  "pos < length c \<Longrightarrow> c ! pos = RBRACE \<Longrightarrow> scan c pos 1 = (pos, 0)"
  by (subst scan.simps) (simp add: LBRACE_def RBRACE_def)

lemma scan_plain:
  "pos < length c \<Longrightarrow> c ! pos \<noteq> LBRACE \<Longrightarrow> c ! pos \<noteq> RBRACE \<Longrightarrow> scan c pos d = scan c (pos + 1) d"
  by (subst scan.simps) simp

lemma scan_end: "length c \<le> pos \<Longrightarrow> scan c pos d = (pos, d)"
  by (subst scan.simps) simp

lemma scan_balanced:
  "balanced w \<Longrightarrow> 1 \<le> d \<Longrightarrow>
     scan (pre @ w @ rest) (length pre) d = scan (pre @ w @ rest) (length pre + length w) d"
proof (induction w arbitrary: pre d rest rule: balanced.induct)
  case empty
  show ?case by simp
next
  case (plain c w)
  have "scan (pre @ (c # w) @ rest) (length pre) d = scan (pre @ (c # w) @ rest) (length pre + 1) d"
    using plain.hyps(1,2) by (intro scan_plain) (simp_all add: nth_append)
  also have "\<dots> = scan ((pre @ [c]) @ w @ rest) (length (pre @ [c])) d" by simp
  also have "\<dots> = scan ((pre @ [c]) @ w @ rest) (length (pre @ [c]) + length w) d"
    by (rule plain.IH) (rule plain.prems)
  finally show ?case by simp
next
  case (block u v)
  let ?c = "pre @ (LBRACE # u @ RBRACE # v) @ rest"
  have c1: "?c = (pre @ [LBRACE]) @ u @ (RBRACE # v @ rest)" by simp
  have c2: "?c = (pre @ LBRACE # u @ [RBRACE]) @ v @ rest" by simp
  have "scan ?c (length pre) d = scan ?c (length pre + 1) (d + 1)"
    by (intro scan_open) (simp_all add: nth_append)
  also have "\<dots> = scan ?c (length (pre @ [LBRACE]) + length u) (d + 1)"
  proof -
    have "scan ((pre @ [LBRACE]) @ u @ (RBRACE # v @ rest)) (length (pre @ [LBRACE])) (d + 1)
        = scan ((pre @ [LBRACE]) @ u @ (RBRACE # v @ rest)) (length (pre @ [LBRACE]) + length u) (d + 1)"
      by (rule block.IH(1)) (use block.prems in simp)
    then show ?thesis by (simp only: c1) simp
  qed
  also have "\<dots> = scan ?c (length (pre @ [LBRACE]) + length u + 1) (d + 1 - 1)"
  proof (intro scan_close)
    show "length (pre @ [LBRACE]) + length u < length ?c" by simp
    show "?c ! (length (pre @ [LBRACE]) + length u) = RBRACE"
      by (simp only: c1 nth_append_length_plus) (simp add: nth_append)
    show "d + 1 \<noteq> 1" using block.prems by simp
  qed
  also have "\<dots> = scan ?c (length (pre @ LBRACE # u @ [RBRACE])) d" by simp
  also have "\<dots> = scan ?c (length (pre @ LBRACE # u @ [RBRACE]) + length v) d"
  proof -
    have "scan ((pre @ LBRACE # u @ [RBRACE]) @ v @ rest) (length (pre @ LBRACE # u @ [RBRACE])) d
        = scan ((pre @ LBRACE # u @ [RBRACE]) @ v @ rest) (length (pre @ LBRACE # u @ [RBRACE]) + length v) d"
      by (rule block.IH(2)) (rule block.prems)
    then show ?thesis by (simp only: c2)
  qed
  finally show ?case by (simp add: add.assoc)
qed

lemma scan_matching_brace:
  assumes "balanced w"
  shows "scan (pre @ LBRACE # w @ RBRACE # rest) (length pre) 0
           = (length pre + 1 + length w, 0)"
proof -
  let ?c = "pre @ LBRACE # w @ RBRACE # rest"
  have c1: "?c = (pre @ [LBRACE]) @ w @ (RBRACE # rest)" by simp
  have "scan ?c (length pre) 0 = scan ?c (length pre + 1) 1"
    using scan_open[of "length pre" ?c 0] by (simp add: nth_append)
  also have "\<dots> = scan ?c (length (pre @ [LBRACE]) + length w) 1"
  proof -
    have "scan ((pre @ [LBRACE]) @ w @ (RBRACE # rest)) (length (pre @ [LBRACE])) 1
        = scan ((pre @ [LBRACE]) @ w @ (RBRACE # rest)) (length (pre @ [LBRACE]) + length w) 1"
      by (rule scan_balanced) (use assms in simp_all)
    then show ?thesis by (simp only: c1) simp
  qed
  also have "\<dots> = (length (pre @ [LBRACE]) + length w, 0)"
  proof (intro scan_stop)
    show "length (pre @ [LBRACE]) + length w < length ?c" by simp
    show "?c ! (length (pre @ [LBRACE]) + length w) = RBRACE"
      by (simp only: c1 nth_append_length_plus) simp
  qed
  finally show ?thesis by simp
qed


section \<open>The headers that the pattern finds\<close>

lemma run_SeqE:
  assumes "x \<in> set (run (Seq a b) st)"
  obtains y where "y \<in> set (run a st)" "x \<in> set (run b y)"
  using assms by auto

lemma run_suffix: "(s', g') \<in> set (run r (s, g)) \<Longrightarrow> \<exists>u \<in> lang r. s = u @ s'"
proof -
  assume "(s', g') \<in> set (run r (s, g))"
  then have "s' \<in> fst ` set (run r (s, g))" by force
  then show ?thesis unfolding run_lang by blast
qed

primrec group_ids :: "re \<Rightarrow> nat set" where
  "group_ids Eps = {}"
| "group_ids (Sym c) = {}"
| "group_ids (Str w) = {}"
| "group_ids (Star c) = {}"
| "group_ids (Plus c) = {}"
| "group_ids (Opt r) = group_ids r"
| "group_ids (Seq r1 r2) = group_ids r1 \<union> group_ids r2"
| "group_ids (Alt r1 r2) = group_ids r1 \<union> group_ids r2"
| "group_ids (Grp n r) = insert n (group_ids r)"

lemma run_other_groups:
  "(s', g') \<in> set (run r (s, g)) \<Longrightarrow> k \<notin> group_ids r \<Longrightarrow> g' k = g k"
proof (induction r arbitrary: s g s' g')
  case (Sym c)
  then show ?case by (cases s) (auto split: if_splits)
next
  case (Str w)
  then show ?case by (auto split: if_splits)
next
  case (Star c)
  then show ?case by (auto simp: repeats_def)
next
  case (Plus c)
  then show ?case by (auto simp: repeats_def)
next
  case (Seq r1 r2)
  from Seq.prems(1) obtain y where y: "y \<in> set (run r1 (s, g))" "(s', g') \<in> set (run r2 y)"
    by (rule run_SeqE)
  obtain s1 g1 where y_eq: "y = (s1, g1)" by (cases y)
  have "g1 k = g k" using Seq.IH(1)[of s1 g1 s g] y(1) Seq.prems(2) by (simp add: y_eq)
  moreover have "g' k = g1 k" using Seq.IH(2)[of s' g' s1 g1] y(2) Seq.prems(2) by (simp add: y_eq)
  ultimately show ?case by simp
next
  case (Grp n r)
  from Grp.prems(1) obtain g'' where g'': "(s', g'') \<in> set (run r (s, g))"
    "g' = g''(n \<mapsto> take (length s - length s') s)" by auto
  have "g'' k = g k" using Grp.IH[OF g''(1)] Grp.prems(2) by simp
  then show ?case using g''(2) Grp.prems(2) by simp
qed auto

lemma run_Grp_sets:
  assumes "(s', g') \<in> set (run (Grp n r) (s, g))"
  shows "\<exists>u \<in> lang r. s = u @ s' \<and> g' n = Some u"
proof -
  from assms obtain g'' where g'': "(s', g'') \<in> set (run r (s, g))"
    "g' = g''(n \<mapsto> take (length s - length s') s)" by auto
  from run_suffix[OF g''(1)] obtain u where u: "u \<in> lang r" "s = u @ s'" by blast
  then have "take (length s - length s') s = u" by simp
  with u g''(2) show ?thesis by auto
qed

lemma lang_Seq_ends:
  assumes "u \<in> lang (Seq a b)" and "\<And>v. v \<in> lang b \<Longrightarrow> \<exists>t. v = t @ [c]"
  shows "\<exists>t. u = t @ [c]"
proof -
  from assms(1) obtain x v where xv: "u = x @ v" "v \<in> lang b" by auto
  from assms(2)[OF xv(2)] obtain t where "v = t @ [c]" by blast
  with xv(1) have "u = (x @ t) @ [c]" by simp
  then show ?thesis by blast
qed

definition is_identifier :: "ustr \<Rightarrow> bool" where
  "is_identifier name \<longleftrightarrow>
     (case name of [] \<Rightarrow> False | x # xs \<Rightarrow> in_cls ident_start x \<and> list_all (in_cls ident_char) xs)"

definition header_tail :: re where
  "header_tail = seqs
     [Star WS, Sym (OneOf [Ch LPAREN]), Star (NoneOf [Ch RPAREN]), Sym (OneOf [Ch RPAREN]),
      Opt (Grp 3 (Star (NoneOf [Ch LBRACE]))), Sym (OneOf [Ch LBRACE])]"

definition header_receiver :: re where
  "header_receiver =
     Opt (Grp 1 (seqs [Sym (OneOf [Ch LPAREN]), Star (NoneOf [Ch RPAREN]), Sym (OneOf [Ch RPAREN])]))"

definition header_name :: re where
  "header_name = seqs [Sym ident_start, Star ident_char]"

lemma function_pattern_parts:
  "function_pattern =
     Seq (Str (U ''func'')) (Seq (Plus WS) (Seq header_receiver (Seq (Star WS)
       (Seq (Grp 2 header_name) header_tail))))"
  by (simp add: function_pattern_def seqs_def header_tail_def header_receiver_def header_name_def)

lemma header_tail_ends: "u \<in> lang header_tail \<Longrightarrow> \<exists>t. u = t @ [LBRACE]"
  unfolding header_tail_def seqs_def foldr.simps o_apply
  apply (erule lang_Seq_ends)
  apply (erule lang_Seq_ends)
  apply (erule lang_Seq_ends)
  apply (erule lang_Seq_ends)
  apply (erule lang_Seq_ends)
  apply auto
  done

lemma header_tail_groups: "2 \<notin> group_ids header_tail"
  by (simp add: header_tail_def seqs_def)

lemma header_name_identifier: "u \<in> lang header_name \<Longrightarrow> is_identifier u"
  by (auto simp: header_name_def seqs_def is_identifier_def)

lemma header_shape:
  assumes "(rest, g) \<in> set (run function_pattern (s, g0))"
  shows "\<exists>t name. s = U ''func'' @ t @ LBRACE # rest \<and> g 2 = Some name \<and> is_identifier name"
proof -
  from assms obtain y1 where y1: "y1 \<in> set (run (Str (U ''func'')) (s, g0))"
    "(rest, g) \<in> set (run (Seq (Plus WS) (Seq header_receiver (Seq (Star WS)
       (Seq (Grp 2 header_name) header_tail)))) y1)"
    unfolding function_pattern_parts by (rule run_SeqE)
  from y1(2) obtain y2 where y2: "y2 \<in> set (run (Plus WS) y1)"
    "(rest, g) \<in> set (run (Seq header_receiver (Seq (Star WS)
       (Seq (Grp 2 header_name) header_tail))) y2)"
    by (rule run_SeqE)
  from y2(2) obtain y3 where y3: "y3 \<in> set (run header_receiver y2)"
    "(rest, g) \<in> set (run (Seq (Star WS) (Seq (Grp 2 header_name) header_tail)) y3)"
    by (rule run_SeqE)
  from y3(2) obtain y4 where y4: "y4 \<in> set (run (Star WS) y3)"
    "(rest, g) \<in> set (run (Seq (Grp 2 header_name) header_tail) y4)"
    by (rule run_SeqE)
  from y4(2) obtain y5 where y5: "y5 \<in> set (run (Grp 2 header_name) y4)"
    "(rest, g) \<in> set (run header_tail y5)"
    by (rule run_SeqE)
  obtain s1 g1 where e1: "y1 = (s1, g1)" by (cases y1)
  obtain s2 g2 where e2: "y2 = (s2, g2)" by (cases y2)
  obtain s3 g3 where e3: "y3 = (s3, g3)" by (cases y3)
  obtain s4 g4 where e4: "y4 = (s4, g4)" by (cases y4)
  obtain s5 g5 where e5: "y5 = (s5, g5)" by (cases y5)
  from run_suffix[OF y1(1)[unfolded e1]] have t1: "s = U ''func'' @ s1" by simp
  from run_suffix[OF y2(1)[unfolded e1 e2]] obtain u2 where t2: "s1 = u2 @ s2" by blast
  from run_suffix[OF y3(1)[unfolded e2 e3]] obtain u3 where t3: "s2 = u3 @ s3" by blast
  from run_suffix[OF y4(1)[unfolded e3 e4]] obtain u4 where t4: "s3 = u4 @ s4" by blast
  from run_Grp_sets[OF y5(1)[unfolded e4 e5]] obtain name where
    t5: "name \<in> lang header_name" "s4 = name @ s5" "g5 2 = Some name" by blast
  from run_suffix[OF y5(2)[unfolded e5]] obtain u6 where t6: "u6 \<in> lang header_tail" "s5 = u6 @ rest"
    by blast
  from header_tail_ends[OF t6(1)] obtain t where t7: "u6 = t @ [LBRACE]" by blast
  have "g 2 = g5 2"
    using run_other_groups[OF y5(2)[unfolded e5] header_tail_groups] .
  then have "g 2 = Some name" using t5(3) by simp
  moreover have "is_identifier name" using t5(1) by (rule header_name_identifier)
  moreover have "s = U ''func'' @ (u2 @ u3 @ u4 @ name @ t) @ LBRACE # rest"
    using t1 t2 t3 t4 t5(2) t6(2) t7 by simp
  ultimately show ?thesis by blast
qed

lemma search_run:
  "search r c i = Some m \<Longrightarrow>
     (\<exists>tl. run r (drop (m_start m) c, Map.empty) = (drop (m_end m) c, m_groups m) # tl)
     \<and> i \<le> m_start m \<and> m_start m \<le> m_end m \<and> m_end m \<le> length c"
proof (induction r c i rule: search.induct)
  case (1 r c i)
  show ?case
  proof (cases "length c < i")
    case True
    with "1.prems" show ?thesis by simp
  next
    case False
    show ?thesis
    proof (cases "run r (drop i c, Map.empty)")
      case Nil
      with False "1.prems" have "search r c (Suc i) = Some m" by simp
      from "1.IH"[OF False Nil this] show ?thesis by simp
    next
      case (Cons a tl)
      obtain rest g where a: "a = (rest, g)" by (cases a)
      from False "1.prems" Cons a
      have m: "m = \<lparr>m_start = i, m_end = length c - length rest, m_groups = g\<rparr>" by simp
      have "(rest, g) \<in> set (run r (drop i c, Map.empty))" by (simp add: Cons a)
      from run_suffix[OF this] obtain u where u: "drop i c = u @ rest" by blast
      have "length (drop i c) = length (u @ rest)" by (simp only: u)
      then have len: "length c - i = length u + length rest" by simp
      have c: "(take i c @ u) @ rest = c" by (simp add: u[symmetric])
      have "drop (length (take i c @ u)) ((take i c @ u) @ rest) = rest" by simp
      then have "drop (length (take i c @ u)) c = rest" by (simp only: c)
      moreover have "length (take i c @ u) = length c - length rest"
        using False len by simp
      ultimately have dr: "drop (length c - length rest) c = rest" by simp
      have "run r (drop i c, Map.empty) = (drop (length c - length rest) c, g) # tl"
        by (simp only: dr Cons a)
      moreover have "i \<le> length c - length rest" using False len by simp
      ultimately show ?thesis by (simp add: m)
    qed
  qed
qed

declare finditer.simps [simp del]

lemma finditer_search:
  "m \<in> set (finditer r c i) \<Longrightarrow> \<exists>j. search r c j = Some m"
proof (induction r c i rule: finditer.induct)
  case (1 r c i)
  show ?case
  proof (cases "search r c i")
    case None
    then have "finditer r c i = []" by (subst finditer.simps) simp
    with "1.prems" show ?thesis by simp
  next
    case (Some m0)
    then have "finditer r c i = m0 # finditer r c (max (m_end m0) (Suc (m_start m0)))"
      by (subst finditer.simps) simp
    with "1.prems" have "m = m0 \<or> m \<in> set (finditer r c (max (m_end m0) (Suc (m_start m0))))"
      by simp
    then show ?thesis
    proof
      assume "m = m0"
      with Some show ?thesis by blast
    next
      assume "m \<in> set (finditer r c (max (m_end m0) (Suc (m_start m0))))"
      with "1.IH"[OF Some] show ?thesis by blast
    qed
  qed
qed

lemma finditer_run:
  assumes "m \<in> set (finditer r c i)"
  shows "(\<exists>tl. run r (drop (m_start m) c, Map.empty) = (drop (m_end m) c, m_groups m) # tl)
     \<and> m_start m \<le> m_end m \<and> m_end m \<le> length c"
proof -
  from finditer_search[OF assms] obtain j where "search r c j = Some m" by blast
  from search_run[OF this] show ?thesis by blast
qed

text \<open>The shape of every header found.\<close>

lemma header_match:
  assumes "m \<in> set (finditer function_pattern content i)"
  shows "\<exists>t name. slice content (m_start m) (m_end m) = U ''func'' @ t @ [LBRACE]
           \<and> match_group m 2 = Some name \<and> is_identifier name
           \<and> m_start m + 5 \<le> m_end m \<and> m_end m \<le> length content"
proof -
  from finditer_run[OF assms] obtain tl where
    r: "run function_pattern (drop (m_start m) content, Map.empty)
          = (drop (m_end m) content, m_groups m) # tl"
    and le: "m_start m \<le> m_end m" "m_end m \<le> length content" by blast
  from r have "(drop (m_end m) content, m_groups m)
                 \<in> set (run function_pattern (drop (m_start m) content, Map.empty))" by simp
  from header_shape[OF this] obtain t name where
    s: "drop (m_start m) content = U ''func'' @ t @ LBRACE # drop (m_end m) content"
    and n: "m_groups m 2 = Some name" "is_identifier name" by blast
  let ?h = "U ''func'' @ t @ [LBRACE]"
  have s': "drop (m_start m) content = ?h @ drop (m_end m) content"
    by (subst s) simp
  have "length (drop (m_start m) content) = length (?h @ drop (m_end m) content)"
    by (subst s') (rule refl)
  then have len: "m_end m - m_start m = length ?h" using le by simp
  have "take (length ?h) (?h @ drop (m_end m) content) = ?h"
    by (rule append_eq_conv_conj[THEN iffD1, THEN conjunct1, symmetric]) (rule refl)
  then have "take (m_end m - m_start m) (drop (m_start m) content) = ?h"
    by (simp only: len s'[symmetric])
  then have "slice content (m_start m) (m_end m) = ?h" by (simp only: slice_def)
  moreover have "m_start m + 5 \<le> m_end m" using len le by simp
  ultimately show ?thesis using n le by (auto simp: match_group_def)
qed

lemma slice_append_mid:
  "i \<le> length pre \<Longrightarrow> slice (pre @ xs @ ys) i (length pre + length xs) = drop i pre @ xs"
proof -
  assume i: "i \<le> length pre"
  have "length pre + length xs - i = length (drop i pre @ xs)" using i by simp
  moreover have "drop i (pre @ xs @ ys) = (drop i pre @ xs) @ ys" using i by simp
  ultimately show ?thesis unfolding slice_def by (simp only: append_eq_conv_conj[THEN iffD1, OF refl, THEN conjunct1, symmetric])
qed


section \<open>A balanced function is stored from its header to its closing brace\<close>

definition captured :: "ustr \<Rightarrow> rmatch \<Rightarrow> (ustr \<times> func_info) option" where
  "captured content m = (case process_match content [] m of [] \<Rightarrow> None | kv # _ \<Rightarrow> Some kv)"

lemma process_match_captured:
  "process_match c fs m =
     (case captured c m of None \<Rightarrow> fs | Some (name, info) \<Rightarrow> dict_set name info fs)"
proof (cases "match_group m 2")
  case None
  then show ?thesis by (simp add: captured_def process_match_def)
next
  case (Some name)
  obtain pos bc where sc: "scan c (m_end m - 1) 0 = (pos, bc)" by (cases "scan c (m_end m - 1) 0")
  show ?thesis
  proof (cases "bc = 0")
    case True
    then show ?thesis unfolding captured_def process_match_def Some sc by simp
  next
    case False
    then show ?thesis unfolding captured_def process_match_def Some sc by simp
  qed
qed

lemma process_match_keys:
  "set (dict_keys fs) \<subseteq> set (dict_keys (process_match c fs m))"
  unfolding process_match_captured
  by (auto simp: AList.dom_update split: option.splits)

lemma foldl_process_keys:
  "set (dict_keys fs) \<subseteq> set (dict_keys (foldl (process_match c) fs ms))"
proof (induction ms arbitrary: fs)
  case Nil
  show ?case by simp
next
  case (Cons m ms)
  have "set (dict_keys fs) \<subseteq> set (dict_keys (process_match c fs m))"
    by (rule process_match_keys)
  also have "\<dots> \<subseteq> set (dict_keys (foldl (process_match c) (process_match c fs m) ms))"
    by (rule Cons.IH)
  finally show ?case by simp
qed

lemma stored_name_stays:
  assumes "m \<in> set ms" and "\<And>fs. name \<in> set (dict_keys (process_match c fs m))"
  shows "name \<in> set (dict_keys (foldl (process_match c) fs ms))"
proof -
  from assms(1) obtain xs ys where ms: "ms = xs @ m # ys" by (auto dest: split_list)
  have "name \<in> set (dict_keys (process_match c (foldl (process_match c) fs xs) m))"
    by (rule assms(2))
  then have "name \<in> set (dict_keys (foldl (process_match c) (process_match c (foldl (process_match c) fs xs) m) ys))"
    using foldl_process_keys by blast
  then show ?thesis by (simp add: ms)
qed

lemma process_match_balanced:
  assumes "m \<in> set (finditer function_pattern content 0)"
      and "content = pre @ LBRACE # w @ RBRACE # rest"
      and "length pre + 1 = m_end m"
      and "balanced w"
      and "match_group m 2 = Some name"
  shows "process_match content functions m =
             dict_set name
               \<lparr>receiver = strip (case match_group m 1 of None \<Rightarrow> [] | Some r \<Rightarrow> r),
                body = slice content (m_start m) (m_end m - 1) @ LBRACE # w @ [RBRACE],
                category = categorize_function name\<rparr> functions"
proof -
  from header_match[OF assms(1)] have le: "m_start m + 5 \<le> m_end m" by blast
  have pos: "m_end m - 1 = length pre" using assms(3) by simp
  have start: "m_start m \<le> length pre" using le assms(3) by simp
  have sc: "scan content (m_end m - 1) 0 = (length pre + 1 + length w, 0)"
    unfolding pos assms(2) using assms(4) by (rule scan_matching_brace)
  have c2: "content = pre @ (LBRACE # w @ [RBRACE]) @ rest" by (simp add: assms(2))
  have c0: "content = pre @ [] @ (LBRACE # w @ RBRACE # rest)" by (simp add: assms(2))
  have "slice content (m_start m) (length pre + length ([]::ustr)) = drop (m_start m) pre @ []"
    by (subst c0) (rule slice_append_mid[OF start])
  then have sl1: "slice content (m_start m) (m_end m - 1) = drop (m_start m) pre"
    by (simp only: list.size add_0_right append_Nil2 pos)
  have "slice content (m_start m) (length pre + length (LBRACE # w @ [RBRACE]))
          = drop (m_start m) pre @ (LBRACE # w @ [RBRACE])"
    by (subst c2) (rule slice_append_mid[OF start])
  moreover have "length pre + length (LBRACE # w @ [RBRACE]) = length pre + 1 + length w + 1"
    by simp
  ultimately have sl2: "slice content (m_start m) (length pre + 1 + length w + 1)
          = slice content (m_start m) (m_end m - 1) @ LBRACE # w @ [RBRACE]"
    by (simp only: sl1)
  have "process_match content functions m =
             dict_set name
               \<lparr>receiver = strip (case match_group m 1 of None \<Rightarrow> [] | Some r \<Rightarrow> r),
                body = slice content (m_start m) (length pre + 1 + length w + 1),
                category = categorize_function name\<rparr> functions"
    unfolding process_match_def assms(5) sc
    by (simp only: option.case Let_def prod.case refl if_True)
  then show ?thesis by (simp only: sl2)
qed

lemma header_without_brace:
  assumes "m \<in> set (finditer function_pattern content i)"
  shows "\<exists>t. slice content (m_start m) (m_end m - 1) = U ''func'' @ t"
proof -
  from header_match[OF assms] obtain t where
    h: "slice content (m_start m) (m_end m) = U ''func'' @ t @ [LBRACE]"
    and le: "m_start m + 5 \<le> m_end m" by blast
  have "slice content (m_start m) (m_end m - 1)
          = take (m_end m - 1 - m_start m) (slice content (m_start m) (m_end m))"
    unfolding slice_def using le by (simp add: min_def)
  also have "\<dots> = take (m_end m - 1 - m_start m) ((U ''func'' @ t) @ [LBRACE])"
    by (simp only: h append_assoc)
  also have "m_end m - 1 - m_start m = length (U ''func'' @ t)"
  proof -
    have "length (slice content (m_start m) (m_end m)) = length (U ''func'' @ t @ [LBRACE])"
      by (simp only: h)
    moreover have "length (slice content (m_start m) (m_end m)) \<le> m_end m - m_start m"
      by (simp add: slice_def)
    moreover have "m_end m \<le> length content" using header_match[OF assms] by blast
    ultimately show ?thesis using le by (simp add: slice_def)
  qed
  also have "take (length (U ''func'' @ t)) ((U ''func'' @ t) @ [LBRACE]) = U ''func'' @ t"
    by (simp only: append_eq_conv_conj[THEN iffD1, OF refl, THEN conjunct1, symmetric])
  finally show ?thesis by blast
qed

text \<open>
  C1. Take a header found in the text, the text being \<open>pre\<close>, the header's opening
  brace, a balanced text \<open>w\<close>, the closing brace and a rest. Then the round of the loop
  for this header stores, under the name of group 2, the text from the word \<open>func\<close> at
  the start of the header to that closing brace: the header without its brace (it is
  \<open>func\<close> followed by some \<open>t\<close>), then the brace, \<open>w\<close> and the closing brace, which
  together are balanced. The name is a key of the store when the loop is over.
\<close>

theorem extract_balanced_function:
  assumes "m \<in> set (finditer function_pattern content 0)"
      and "content = pre @ LBRACE # w @ RBRACE # rest"
      and "length pre + 1 = m_end m"
      and "balanced w"
  shows "\<exists>name t.
           match_group m 2 = Some name
         \<and> slice content (m_start m) (m_end m - 1) = U ''func'' @ t
         \<and> process_match content functions m =
             dict_set name
               \<lparr>receiver = strip (case match_group m 1 of None \<Rightarrow> [] | Some r \<Rightarrow> r),
                body = U ''func'' @ t @ LBRACE # w @ [RBRACE],
                category = categorize_function name\<rparr> functions
         \<and> balanced (LBRACE # w @ [RBRACE])
         \<and> name \<in> set (dict_keys (extract_functions content functions))"
proof -
  from header_match[OF assms(1)] obtain name where n: "match_group m 2 = Some name" by blast
  from header_without_brace[OF assms(1)] obtain t where
    t: "slice content (m_start m) (m_end m - 1) = U ''func'' @ t" by blast
  have pm: "process_match content fs m =
             dict_set name
               \<lparr>receiver = strip (case match_group m 1 of None \<Rightarrow> [] | Some r \<Rightarrow> r),
                body = U ''func'' @ t @ LBRACE # w @ [RBRACE],
                category = categorize_function name\<rparr> fs" for fs
    using process_match_balanced[OF assms n, of fs] by (simp only: t append_assoc)
  have "name \<in> set (dict_keys (process_match content fs m))" for fs
    by (simp only: pm AList.update_keys) simp
  then have "name \<in> set (dict_keys (extract_functions content functions))"
    unfolding extract_functions_def using assms(1) by (intro stored_name_stays)
  moreover have "balanced (LBRACE # w @ [RBRACE])"
    using balanced.block[OF assms(4) balanced.empty] by simp
  ultimately show ?thesis using n t pm by blast
qed

theorem extract_balanced_function_witness:
  "\<exists>name t.
     match_group (hd (finditer function_pattern (U ''func f() { }'') 0)) 2 = Some name
   \<and> slice (U ''func f() { }'') (m_start (hd (finditer function_pattern (U ''func f() { }'') 0)))
        (m_end (hd (finditer function_pattern (U ''func f() { }'') 0)) - 1) = U ''func'' @ t
   \<and> process_match (U ''func f() { }'') [] (hd (finditer function_pattern (U ''func f() { }'') 0)) =
       dict_set name
         \<lparr>receiver = strip (case match_group (hd (finditer function_pattern (U ''func f() { }'') 0)) 1
                             of None \<Rightarrow> [] | Some r \<Rightarrow> r),
          body = U ''func'' @ t @ LBRACE # U '' '' @ [RBRACE],
          category = categorize_function name\<rparr> []
   \<and> balanced (LBRACE # U '' '' @ [RBRACE])
   \<and> name \<in> set (dict_keys (extract_functions (U ''func f() { }'') []))"
proof -
  let ?c = "U ''func f() { }''"
  have ne: "finditer function_pattern ?c 0 \<noteq> []" by (simp add: regex_eval)
  have h1: "hd (finditer function_pattern ?c 0) \<in> set (finditer function_pattern ?c 0)"
    using ne by (rule hd_in_set)
  have h2: "?c = U ''func f() '' @ LBRACE # U '' '' @ RBRACE # []"
    by (simp add: LBRACE_def RBRACE_def)
  have h3: "length (U ''func f() '') + 1 = m_end (hd (finditer function_pattern ?c 0))"
    by (simp add: regex_eval)
  have h4: "balanced (U '' '')"
    by (simp add: balanced.intros LBRACE_def RBRACE_def)
  show ?thesis by (rule extract_balanced_function[OF h1 h2 h3 h4])
qed


section \<open>What the file mapping holds\<close>

lemma dict_append_get:
  "dict_get (dict_append p f m) path =
     (if path = p then map_option (\<lambda>names. names @ [f]) (dict_get m path) else dict_get m path)"
  unfolding dict_append_def by (induction m) auto

lemma dict_append_keys: "dict_keys (dict_append p f m) = dict_keys m"
  unfolding dict_append_def by (induction m) auto

lemma assign_function_keys: "dict_keys (assign_function f cat m) = dict_keys m"
  unfolding assign_function_def by (simp add: dict_append_keys split: option.splits)

lemma assign_function_get:
  "dict_get (assign_function f cat m) path =
     map_option (\<lambda>names. names @ (if destination f cat = Some path then [f] else []))
       (dict_get m path)"
  unfolding assign_function_def
  by (cases "dict_get m path") (auto simp: dict_append_get split: option.splits)

lemma foldl_assign_get:
  "dict_get (foldl (\<lambda>mapping (func_name, func_info).
                 assign_function func_name (category func_info) mapping) m fs) path =
     map_option (\<lambda>names. names @
         map fst (filter (\<lambda>(n, info). destination n (category info) = Some path) fs))
       (dict_get m path)"
proof (induction fs arbitrary: m)
  case Nil
  show ?case by (simp add: option.map_ident)
next
  case (Cons a fs)
  obtain n info where a: "a = (n, info)" by (cases a)
  show ?case
    by (simp add: a Cons.IH assign_function_get option.map_comp o_def)
qed

lemma foldl_assign_keys:
  "dict_keys (foldl (\<lambda>mapping (func_name, func_info).
                 assign_function func_name (category func_info) mapping) m fs) = dict_keys m"
  by (induction fs arbitrary: m) (auto simp: assign_function_keys)

lemma get_file_mapping_keys: "dict_keys (get_file_mapping fs) = dict_keys initial_mapping"
  unfolding get_file_mapping_def by (rule foldl_assign_keys)

lemma initial_mapping_get:
  "path \<in> set (dict_keys initial_mapping) \<Longrightarrow> dict_get initial_mapping path = Some []"
  unfolding initial_mapping_def by auto

lemma initial_mapping_distinct: "distinct (dict_keys initial_mapping)"
  unfolding initial_mapping_def by simp

text \<open>The list of a destination: the names sent there, in the order of the store.\<close>

lemma get_file_mapping_get:
  assumes "path \<in> set (dict_keys initial_mapping)"
  shows "dict_get (get_file_mapping fs) path =
           Some (map fst (filter (\<lambda>(n, info). destination n (category info) = Some path) fs))"
  unfolding get_file_mapping_def foldl_assign_get initial_mapping_get[OF assms] by simp

lemma get_file_mapping_entry:
  assumes "(path, names) \<in> set (get_file_mapping fs)"
  shows "names = map fst (filter (\<lambda>(n, info). destination n (category info) = Some path) fs)"
proof -
  have d: "distinct (dict_keys (get_file_mapping fs))"
    by (simp only: get_file_mapping_keys initial_mapping_distinct)
  have "path \<in> set (dict_keys (get_file_mapping fs))" using assms by force
  then have "path \<in> set (dict_keys initial_mapping)" by (simp only: get_file_mapping_keys)
  from get_file_mapping_get[OF this, of fs] map_of_is_SomeI[OF d assms] show ?thesis by simp
qed

lemma destination_categories:
  "destination n cat = Some path \<Longrightarrow> cat = U ''command'' \<or> cat = U ''callback'' \<or> cat = U ''util''"
  unfolding destination_def Let_def by (simp split: if_splits)


section \<open>Where a \<open>util\<close> name goes\<close>

lemma categorize_loop_matches:
  "categorize_loop cs n = c \<Longrightarrow> c \<noteq> U ''other'' \<Longrightarrow> \<exists>ps. (c, ps) \<in> set cs \<and> match_patterns ps n"
proof (induction cs)
  case Nil
  then show ?case by simp
next
  case (Cons a cs)
  obtain cat ps where a: "a = (cat, ps)" by (cases a)
  show ?case
  proof (cases "match_patterns ps n")
    case True
    with Cons.prems a show ?thesis by auto
  next
    case False
    with Cons.prems a have "categorize_loop cs n = c" by simp
    from Cons.IH[OF this Cons.prems(2)] show ?thesis by auto
  qed
qed

lemma prefix_pattern:
  assumes "re_match (seqs [Str w, dotstar]) n"
  shows "take (length w) n = w"
proof -
  from assms obtain u v where "n = u @ v" "u \<in> lang (seqs [Str w, dotstar])"
    unfolding re_match_lang by blast
  then obtain x where "n = (w @ x) @ v" by (auto simp: seqs_def dotstar_def)
  then show ?thesis by simp
qed

definition util_words :: "ustr list" where
  "util_words = [U ''format'', U ''escape'', U ''split'', U ''encode'', U ''decode'']"

lemma util_patterns:
  "(U ''util'', ps) \<in> set categories \<Longrightarrow> ps = map (\<lambda>w. seqs [Str w, dotstar]) util_words"
  unfolding categories_def util_words_def by simp

lemma match_prefix_patterns:
  "match_patterns (map (\<lambda>w. seqs [Str w, dotstar]) ws) n \<Longrightarrow> \<exists>w \<in> set ws. take (length w) n = w"
  by (induction ws) (auto dest: prefix_pattern split: if_splits)

lemma util_prefix:
  assumes "categorize_function n = U ''util''"
  shows "\<exists>w \<in> set util_words. take (length w) n = w"
proof -
  have "U ''util'' \<noteq> U ''other''" by simp
  from categorize_loop_matches[OF assms[unfolded categorize_function_def] this]
  obtain ps where ps: "(U ''util'', ps) \<in> set categories" "match_patterns ps n" by blast
  from ps(2) show ?thesis unfolding util_patterns[OF ps(1)] by (rule match_prefix_patterns)
qed

lemma contains_prefix: "take (length w) s = w \<Longrightarrow> contains s w"
  by (cases s) auto

lemma lower_prefix:
  "take (length w) n = w \<Longrightarrow> lower w = w \<Longrightarrow> take (length w) (lower n) = w"
  unfolding lower_def by (metis take_map length_map)

lemma util_destination:
  assumes "categorize_function n = U ''util''"
  shows "destination n (U ''util'') \<in>
           {Some (U ''utils/formatter.go''), Some (U ''utils/message_sender.go''),
            Some (U ''utils/encoder.go'')}"
proof -
  from util_prefix[OF assms] obtain w where w: "w \<in> set util_words" "take (length w) n = w" by blast
  have "lower w = w" using w(1) by (auto simp: util_words_def lower_def lower_char_def)
  from lower_prefix[OF w(2) this] have c: "contains (lower n) w" by (rule contains_prefix)
  have "any_word_in [U ''format'', U ''escape'', U ''split''] (lower n)
          \<or> any_word_in [U ''encode'', U ''decode'', U ''path''] (lower n)"
    using w(1) c unfolding util_words_def any_word_in_def by auto
  then show ?thesis
    unfolding destination_def Let_def by (simp split: if_splits) blast
qed


section \<open>The store keeps the last captured definition of a name\<close>

text \<open>
  \<open>captures\<close> lists what the rounds of the loop store, in the order of the text: one
  pair of name and entry for each header whose scan ends at depth zero.
\<close>

definition captures :: "ustr \<Rightarrow> (ustr \<times> func_info) list" where
  "captures content = List.map_filter (captured content) (finditer function_pattern content 0)"

lemma foldl_process_captured:
  "foldl (process_match c) fs ms =
     foldl (\<lambda>fs (n, i). dict_set n i fs) fs (List.map_filter (captured c) ms)"
proof (induction ms arbitrary: fs)
  case Nil
  show ?case by (simp add: List.map_filter_simps)
next
  case (Cons m ms)
  show ?case
    by (cases "captured c m")
       (auto simp: List.map_filter_simps Cons.IH process_match_captured[of c fs m])
qed

lemma extract_functions_captures:
  "extract_functions content fs = foldl (\<lambda>fs (n, i). dict_set n i fs) fs (captures content)"
  unfolding extract_functions_def captures_def by (rule foldl_process_captured)

lemma foldl_update_get:
  "map_of (foldl (\<lambda>fs (n, i). AList.update n i fs) fs kvs) k =
     (case map_of (rev kvs) k of None \<Rightarrow> map_of fs k | Some v \<Rightarrow> Some v)"
proof (induction kvs arbitrary: fs)
  case Nil
  show ?case by simp
next
  case (Cons a kvs)
  obtain n i where a: "a = (n, i)" by (cases a)
  show ?case
    by (simp add: a Cons.IH AList.update_conv' map_add_def split: option.splits)
qed

lemma foldl_update_distinct:
  "distinct (map fst fs) \<Longrightarrow> distinct (map fst (foldl (\<lambda>fs (n, i). AList.update n i fs) fs kvs))"
proof (induction kvs arbitrary: fs)
  case Nil
  then show ?case by simp
next
  case (Cons a kvs)
  obtain n i where a: "a = (n, i)" by (cases a)
  show ?case using Cons.prems by (simp add: a Cons.IH AList.distinct_update)
qed

lemma extract_functions_distinct: "distinct (dict_keys (extract_functions content []))"
  unfolding extract_functions_captures by (rule foldl_update_distinct) simp

lemma extract_functions_get:
  "dict_get (extract_functions content []) name = map_of (rev (captures content)) name"
  unfolding extract_functions_captures foldl_update_get by (simp split: option.splits)

lemma one_entry:
  assumes "distinct (map fst al)" and "map_of al k = Some v"
  shows "filter (\<lambda>(n, i). n = k) al = [(k, v)]"
  using assms
proof (induction al)
  case Nil
  then show ?case by simp
next
  case (Cons a al)
  obtain n i where a: "a = (n, i)" by (cases a)
  show ?case
  proof (cases "n = k")
    case True
    have "filter (\<lambda>(n, i). n = k) al = []"
      using Cons.prems(1) True by (force simp: a filter_empty_conv)
    with True Cons.prems(2) show ?thesis by (simp add: a)
  next
    case False
    with Cons show ?thesis by (simp add: a)
  qed
qed

lemmas captures_eval = captures_def captured_def List.map_filter_simps extract_eval

text \<open>
  C4. When the definitions captured from the text are \<open>before\<close>, then \<open>name\<close> with the
  entry \<open>info\<close>, then \<open>after\<close> with no definition of \<open>name\<close> in it, the store holds
  \<open>info\<close> under \<open>name\<close>, whatever \<open>before\<close> defines, and it holds exactly one entry for
  \<open>name\<close>. For two definitions of \<open>f\<close> only the second body is kept.
\<close>

theorem duplicate_names_last_wins:
  assumes "captures content = before @ (name, info) # after"
      and "name \<notin> fst ` set after"
  shows "dict_get (extract_functions content []) name = Some info
       \<and> filter (\<lambda>(n, i). n = name) (extract_functions content []) = [(name, info)]"
proof -
  have "map_of (rev (captures content)) name = Some info"
    using assms(2) by (simp add: assms(1) map_add_def map_of_eq_None_iff[THEN iffD2]
                          split: option.splits)
  then have g: "dict_get (extract_functions content []) name = Some info"
    by (simp only: extract_functions_get)
  from one_entry[OF extract_functions_distinct g] g show ?thesis by simp
qed

theorem duplicate_names_last_wins_witness:
  "dict_get (extract_functions (U ''func f() {a} func f() {b}'') []) (U ''f'')
     = Some \<lparr>receiver = [], body = U ''func f() {b}'', category = U ''other''\<rparr>
   \<and> filter (\<lambda>(n, i). n = U ''f'') (extract_functions (U ''func f() {a} func f() {b}'') [])
     = [(U ''f'', \<lparr>receiver = [], body = U ''func f() {b}'', category = U ''other''\<rparr>)]"
proof -
  have c: "captures (U ''func f() {a} func f() {b}'')
        = [(U ''f'', \<lparr>receiver = [], body = U ''func f() {a}'', category = U ''other''\<rparr>)]
          @ (U ''f'', \<lparr>receiver = [], body = U ''func f() {b}'', category = U ''other''\<rparr>) # []"
    by (simp add: captures_eval)
  have n: "U ''f'' \<notin> fst ` set ([] :: (ustr \<times> func_info) list)" by simp
  show ?thesis by (rule duplicate_names_last_wins[OF c n])
qed


section \<open>A header whose braces never close\<close>

lemma captured_none_iff: "captured c m = None \<longleftrightarrow> (\<forall>fs. process_match c fs m = fs)"
proof
  assume "captured c m = None"
  then show "\<forall>fs. process_match c fs m = fs" by (simp add: process_match_captured)
next
  assume "\<forall>fs. process_match c fs m = fs"
  then have "process_match c [] m = []" by blast
  then show "captured c m = None" by (simp add: captured_def)
qed

lemma unbalanced_not_captured:
  assumes "scan content (m_end m - 1) 0 = (pos, d)" and "d \<noteq> 0"
  shows "process_match content fs m = fs"
  using assms(2) unfolding process_match_def assms(1) by (simp split: option.splits)

lemma captures_names:
  "(name, info) \<in> set (captures content) \<Longrightarrow>
     \<exists>m \<in> set (finditer function_pattern content 0). captured content m = Some (name, info)"
  unfolding captures_def by (auto simp: List.map_filter_def)

lemma captured_name:
  assumes "captured content m = Some (name, info)"
  shows "match_group m 2 = Some name"
proof (cases "match_group m 2")
  case None
  then have "process_match content [] m = []" by (simp add: process_match_def)
  with assms show ?thesis by (simp add: captured_def)
next
  case (Some n)
  obtain pos bc where sc: "scan content (m_end m - 1) 0 = (pos, bc)"
    by (cases "scan content (m_end m - 1) 0")
  show ?thesis
  proof (cases "bc = 0")
    case True
    then have "process_match content [] m =
        [(n, \<lparr>receiver = strip (case match_group m 1 of None \<Rightarrow> [] | Some r \<Rightarrow> r),
              body = slice content (m_start m) (pos + 1), category = categorize_function n\<rparr>)]"
      unfolding process_match_def Some sc by simp
    with assms Some show ?thesis by (simp add: captured_def)
  next
    case False
    then have "process_match content [] m = []" unfolding process_match_def Some sc by simp
    with assms show ?thesis by (simp add: captured_def)
  qed
qed

lemma extract_functions_keys:
  "set (dict_keys (extract_functions content [])) = fst ` set (captures content)"
proof -
  have "fst ` set (foldl (\<lambda>fs (n, i). AList.update n i fs) fs kvs)
          = fst ` set fs \<union> fst ` set kvs" for fs :: "func_info dict" and kvs
  proof (induction kvs arbitrary: fs)
    case Nil
    show ?case by simp
  next
    case (Cons a kvs)
    obtain n i where a: "a = (n, i)" by (cases a)
    show ?case by (simp add: a Cons.IH AList.dom_update)
  qed
  then show ?thesis unfolding extract_functions_captures by simp
qed

lemma mapping_names_are_keys:
  assumes "(path, names) \<in> set (get_file_mapping fs)"
  shows "set names \<subseteq> set (dict_keys fs)"
  unfolding get_file_mapping_entry[OF assms] by auto


section \<open>What a run does to the file system\<close>

text \<open>A sequence of steps on the file system that stops at the first error.\<close>

fun fold_err :: "(filesystem \<Rightarrow> 'a \<Rightarrow> os_error + filesystem) \<Rightarrow> filesystem \<Rightarrow> 'a list
                   \<Rightarrow> os_error + filesystem" where
  "fold_err g fs [] = Inr fs"
| "fold_err g fs (x # xs) = (case g fs x of Inl e \<Rightarrow> Inl e | Inr fs' \<Rightarrow> fold_err g fs' xs)"

definition mkdir_all :: "filesystem \<Rightarrow> ppath list \<Rightarrow> os_error + filesystem" where
  "mkdir_all = fold_err mkdir_parents"

definition write_all :: "filesystem \<Rightarrow> (ppath \<times> ustr) list \<Rightarrow> os_error + filesystem" where
  "write_all = fold_err (\<lambda>fs (p, text). write_text fs p text)"

definition target_dirs :: "ppath \<Rightarrow> ppath list" where
  "target_dirs t = map (joinpath t) directories"

definition file_jobs :: "helper \<Rightarrow> (ppath \<times> ustr) list" where
  "file_jobs h =
     map (\<lambda>(p, names). (joinpath (h_target_dir h) p, file_content h p names))
       (filter (\<lambda>(p, names). names \<noteq> []) (get_file_mapping (h_functions h)))"

definition report_path :: "ppath \<Rightarrow> ppath" where
  "report_path t = joinpath t (U ''REFACTORING_SUMMARY.md'')"

definition analysed :: "(nat \<Rightarrow> bool) \<Rightarrow> ustr \<Rightarrow> ppath \<Rightarrow> ustr \<Rightarrow> helper" where
  "analysed alnum source_file target content =
     \<lparr>h_source_file = source_file, h_target_dir = target,
      h_functions = extract_functions content [],
      h_constants = extract_constants alnum content []\<rparr>"

lemma io_bind_apply:
  "io_bind m f w = (case m w of (Inl e, w') \<Rightarrow> (Inl e, w') | (Inr x, w') \<Rightarrow> f x w')"
  by (simp add: io_bind_def)

lemma io_then_apply:
  "io_then m n w = (case m w of (Inl e, w') \<Rightarrow> (Inl e, w') | (Inr x, w') \<Rightarrow> n w')"
  by (simp add: io_then_def io_bind_def)

lemma io_then_ok:
  "io_then m n w = (Inr y, w'') \<longleftrightarrow> (\<exists>w'. m w = (Inr (), w') \<and> n w' = (Inr y, w''))"
  by (auto simp: io_then_apply split: prod.splits sum.splits)

lemma io_bind_ok:
  "io_bind m f w = (Inr y, w'') \<longleftrightarrow> (\<exists>x w'. m w = (Inr x, w') \<and> f x w' = (Inr y, w''))"
  by (auto simp: io_bind_apply split: prod.splits sum.splits)

lemma print_line_apply: "print_line s (out, fs) = (Inr (), (out @ [s], fs))"
  by (simp add: print_line_def)

lemma print_lines_apply:
  "io_foreach ls print_line (out, fs) = (Inr (), (out @ ls, fs))"
  by (induction ls arbitrary: out) (auto simp: io_return_def io_then_apply print_line_apply)

lemma io_foreach_ok:
  assumes step: "\<And>x out fs out' fs'.
            f x (out, fs) = (Inr (), (out', fs')) \<longleftrightarrow> g fs x = Inr fs' \<and> out' = out @ pr x"
  shows "io_foreach xs f (out, fs) = (Inr (), (out', fs'))
           \<longleftrightarrow> fold_err g fs xs = Inr fs' \<and> out' = out @ concat (map pr xs)"
proof (induction xs arbitrary: out fs)
  case Nil
  show ?case by (auto simp: io_return_def)
next
  case (Cons x xs)
  have "io_foreach (x # xs) f (out, fs) = (Inr (), (out', fs'))
      \<longleftrightarrow> (\<exists>o1 f1. f x (out, fs) = (Inr (), (o1, f1)) \<and> io_foreach xs f (o1, f1) = (Inr (), (out', fs')))"
    by (simp add: io_then_ok)
  also have "\<dots> \<longleftrightarrow> (\<exists>o1 f1. (g fs x = Inr f1 \<and> o1 = out @ pr x)
                  \<and> (fold_err g f1 xs = Inr fs' \<and> out' = o1 @ concat (map pr xs)))"
    by (simp only: step Cons.IH)
  also have "\<dots> \<longleftrightarrow> fold_err g fs (x # xs) = Inr fs' \<and> out' = out @ concat (map pr (x # xs))"
    by (cases "g fs x") auto
  finally show ?case .
qed

definition mkdir_step :: "ppath \<Rightarrow> ustr \<Rightarrow> unit io" where
  "mkdir_step t dir_name =
     (let dir_path = joinpath t dir_name in
      io_then (io_mkdir dir_path) (print_line (msg_directory dir_path)))"

lemma mkdir_step_ok:
  "mkdir_step t d (out, fs) = (Inr (), (out', fs'))
     \<longleftrightarrow> mkdir_parents fs (joinpath t d) = Inr fs' \<and> out' = out @ [msg_directory (joinpath t d)]"
  unfolding mkdir_step_def Let_def io_then_ok
  by (cases "mkdir_parents fs (joinpath t d)") (auto simp: io_mkdir_def print_line_apply)

lemma fold_err_map: "fold_err g fs (map j xs) = fold_err (\<lambda>fs x. g fs (j x)) fs xs"
  by (induction xs arbitrary: fs) (auto split: sum.splits)

lemma fold_err_filter:
  "fold_err g fs (filter P xs) = fold_err (\<lambda>fs x. if P x then g fs x else Inr fs) fs xs"
  by (induction xs arbitrary: fs) (auto split: sum.splits)

lemma mkdir_loop_ok:
  "io_foreach ds (mkdir_step t) (out, fs) = (Inr (), (out', fs'))
   \<longleftrightarrow> mkdir_all fs (map (joinpath t) ds) = Inr fs'
       \<and> out' = out @ map (\<lambda>d. msg_directory (joinpath t d)) ds"
proof -
  have "concat (map (\<lambda>d. [msg_directory (joinpath t d)]) ds)
          = map (\<lambda>d. msg_directory (joinpath t d)) ds"
    by (induction ds) auto
  then show ?thesis
    using io_foreach_ok[of "mkdir_step t" "\<lambda>fs d. mkdir_parents fs (joinpath t d)"
             "\<lambda>d. [msg_directory (joinpath t d)]" ds out fs out' fs', OF mkdir_step_ok]
    by (simp add: mkdir_all_def fold_err_map)
qed

definition write_step :: "helper \<Rightarrow> ustr \<times> ustr list \<Rightarrow> unit io" where
  "write_step h = (\<lambda>(file_path, function_names). generate_single_file h file_path function_names)"

lemma write_step_ok:
  "write_step h x (out, fs) = (Inr (), (out', fs'))
     \<longleftrightarrow> (if snd x \<noteq> []
          then write_text fs (joinpath (h_target_dir h) (fst x)) (file_content h (fst x) (snd x))
          else Inr fs) = Inr fs'
         \<and> out' = out @ (if snd x \<noteq> [] then [msg_file (joinpath (h_target_dir h) (fst x))] else [])"
proof (cases x)
  case (Pair p names)
  show ?thesis
  proof (cases "names = []")
    case True
    then show ?thesis
      by (auto simp: Pair write_step_def generate_single_file_def io_return_def)
  next
    case False
    then show ?thesis
      unfolding Pair write_step_def generate_single_file_def Let_def
      by (cases "write_text fs (joinpath (h_target_dir h) p) (file_content h p names)")
         (auto simp: io_then_ok print_line_apply io_write_def)
  qed
qed

lemma write_loop_ok:
  "io_foreach mapping (write_step h) (out, fs) = (Inr (), (out', fs'))
   \<longleftrightarrow> write_all fs (map (\<lambda>(p, names). (joinpath (h_target_dir h) p, file_content h p names))
                        (filter (\<lambda>(p, names). names \<noteq> []) mapping)) = Inr fs'
       \<and> out' = out @ map (\<lambda>(p, names). msg_file (joinpath (h_target_dir h) p))
                        (filter (\<lambda>(p, names). names \<noteq> []) mapping)"
proof -
  have c: "concat (map (\<lambda>x. if snd x \<noteq> [] then [msg_file (joinpath (h_target_dir h) (fst x))] else [])
                     mapping)
        = map (\<lambda>(p, names). msg_file (joinpath (h_target_dir h) p))
             (filter (\<lambda>(p, names). names \<noteq> []) mapping)"
    by (induction mapping) auto
  have f: "write_all fs (map (\<lambda>(p, names). (joinpath (h_target_dir h) p, file_content h p names))
                        (filter (\<lambda>(p, names). names \<noteq> []) mapping))
        = fold_err (\<lambda>fs x. if snd x \<noteq> []
             then write_text fs (joinpath (h_target_dir h) (fst x)) (file_content h (fst x) (snd x))
             else Inr fs) fs mapping" for fs
    unfolding write_all_def fold_err_map fold_err_filter
    by (rule arg_cong[where f = "\<lambda>g. fold_err g fs mapping"]) (auto simp: fun_eq_iff)
  show ?thesis
    using io_foreach_ok[of "write_step h" _ _ mapping out fs out' fs', OF write_step_ok]
    by (simp only: c f)
qed

lemma generate_file_structure_steps:
  "generate_file_structure h =
     io_then (print_line msg_structure)
       (io_then (io_foreach directories (mkdir_step (h_target_dir h)))
          (io_foreach (get_file_mapping (h_functions h)) (write_step h)))"
  unfolding generate_file_structure_def mkdir_step_def write_step_def Let_def by (rule refl)

lemma structure_ok:
  "generate_file_structure h (out, fs) = (Inr (), (out', fs'))
   \<longleftrightarrow> (\<exists>fsA. mkdir_all fs (target_dirs (h_target_dir h)) = Inr fsA
             \<and> write_all fsA (file_jobs h) = Inr fs'
             \<and> out' = out @ [msg_structure]
                        @ map (\<lambda>d. msg_directory (joinpath (h_target_dir h) d)) directories
                        @ map (\<lambda>(p, text). msg_file p) (file_jobs h))"
  unfolding generate_file_structure_steps io_then_ok
  by (auto simp: print_line_apply mkdir_loop_ok write_loop_ok target_dirs_def
                 file_jobs_def o_def split_def)

lemma report_ok:
  "generate_summary_report h (out, fs) = (Inr (), (out', fs'))
   \<longleftrightarrow> write_text fs (report_path (h_target_dir h)) (report_content h fs) = Inr fs'
       \<and> out' = out @ [msg_report (report_path (h_target_dir h))]"
  unfolding generate_summary_report_def Let_def io_then_ok io_bind_ok
  by (auto simp: print_line_apply io_files_def io_write_def report_path_def split: sum.splits)

lemma analyze_ok:
  "analyze_source_file alnum h (out, fs) = (Inr h', (out', fs'))
   \<longleftrightarrow> (\<exists>content. read_text fs (h_source_file h) = Inr content
         \<and> h' = h\<lparr>h_functions := extract_functions content (h_functions h),
                   h_constants := extract_constants alnum content (h_constants h)\<rparr>
         \<and> fs' = fs
         \<and> out' = out @ [msg_analyzing (h_source_file h),
                          msg_analyzed (length (extract_functions content (h_functions h)))])"
  unfolding analyze_source_file_def Let_def io_then_ok io_bind_ok
  by (auto simp: print_line_apply io_read_def io_return_def)

text \<open>The lines that a run prints after its banner, when nothing fails.\<close>

definition run_output :: "helper \<Rightarrow> ustr list" where
  "run_output h =
     [msg_analyzing (h_source_file h), msg_analyzed (length (h_functions h)), [], msg_structure]
     @ map (\<lambda>d. msg_directory (joinpath (h_target_dir h) d)) directories
     @ map (\<lambda>(p, text). msg_file p) (file_jobs h)
     @ [[], msg_report (report_path (h_target_dir h)), []]
     @ msg_done"

text \<open>
  A run that completes: the source is read, the eight directories are made, the files
  are written, and the report is written last.
\<close>

definition completes ::
  "helper \<Rightarrow> filesystem \<Rightarrow> filesystem \<Rightarrow> filesystem \<Rightarrow> filesystem \<Rightarrow> bool" where
  "completes h fs fsA fsB fs' \<longleftrightarrow>
     mkdir_all fs (target_dirs (h_target_dir h)) = Inr fsA
   \<and> write_all fsA (file_jobs h) = Inr fsB
   \<and> write_text fsB (report_path (h_target_dir h)) (report_content h fsB) = Inr fs'"

lemma pipeline_ok:
  "pipeline alnum h0 (out, fs) = (Inr (), (out', fs'))
   \<longleftrightarrow> (\<exists>content fsA fsB.
          read_text fs (h_source_file h0) = Inr content
        \<and> completes (h0\<lparr>h_functions := extract_functions content (h_functions h0),
                          h_constants := extract_constants alnum content (h_constants h0)\<rparr>)
             fs fsA fsB fs'
        \<and> out' = out @ run_output
                   (h0\<lparr>h_functions := extract_functions content (h_functions h0),
                       h_constants := extract_constants alnum content (h_constants h0)\<rparr>))"
  (is "?L \<longleftrightarrow> ?R")
proof
  assume ?L
  then obtain h1 o1 f1 o2 f2 o3 f3 o4 f4 o5 f5 where
    a: "analyze_source_file alnum h0 (out, fs) = (Inr h1, (o1, f1))" and
    p1: "print_line [] (o1, f1) = (Inr (), (o2, f2))" and
    g: "generate_file_structure h1 (o2, f2) = (Inr (), (o3, f3))" and
    p2: "print_line [] (o3, f3) = (Inr (), (o4, f4))" and
    r: "generate_summary_report h1 (o4, f4) = (Inr (), (o5, f5))" and
    d: "io_then (print_line []) (io_foreach msg_done print_line) (o5, f5) = (Inr (), (out', fs'))"
    unfolding pipeline_def io_bind_ok io_then_ok by (auto simp: print_line_apply)
  from a obtain content where c: "read_text fs (h_source_file h0) = Inr content"
    and h1: "h1 = h0\<lparr>h_functions := extract_functions content (h_functions h0),
                      h_constants := extract_constants alnum content (h_constants h0)\<rparr>"
    and f1: "f1 = fs"
    and o1: "o1 = out @ [msg_analyzing (h_source_file h0),
                         msg_analyzed (length (extract_functions content (h_functions h0)))]"
    unfolding analyze_ok by blast
  from p1 have f2: "f2 = f1" "o2 = o1 @ [[]]" by (auto simp: print_line_apply)
  from g obtain fsA where m: "mkdir_all f2 (target_dirs (h_target_dir h1)) = Inr fsA"
    and w: "write_all fsA (file_jobs h1) = Inr f3"
    and o3: "o3 = o2 @ [msg_structure]
                  @ map (\<lambda>d. msg_directory (joinpath (h_target_dir h1) d)) directories
                  @ map (\<lambda>(p, text). msg_file p) (file_jobs h1)"
    unfolding structure_ok by blast
  from p2 have f4: "f4 = f3" "o4 = o3 @ [[]]" by (auto simp: print_line_apply)
  from r have rw: "write_text f4 (report_path (h_target_dir h1)) (report_content h1 f4) = Inr f5"
    and o5: "o5 = o4 @ [msg_report (report_path (h_target_dir h1))]"
    unfolding report_ok by blast+
  from d have f5: "fs' = f5" "out' = o5 @ [[]] @ msg_done"
    by (auto simp: io_then_ok print_line_apply print_lines_apply)
  have "completes h1 fs fsA f3 fs'"
    unfolding completes_def using m w rw by (simp add: f1 f2 f4 f5)
  moreover have "out' = out @ run_output h1"
    by (simp add: f5 o5 f4 o3 f2 o1 run_output_def h1)
  ultimately show ?R using c h1 by blast
next
  assume ?R
  then obtain content fsA fsB where c: "read_text fs (h_source_file h0) = Inr content"
    and k: "completes (h0\<lparr>h_functions := extract_functions content (h_functions h0),
                          h_constants := extract_constants alnum content (h_constants h0)\<rparr>)
             fs fsA fsB fs'"
    and o: "out' = out @ run_output
                   (h0\<lparr>h_functions := extract_functions content (h_functions h0),
                       h_constants := extract_constants alnum content (h_constants h0)\<rparr>)"
    by blast
  define h1 where "h1 = h0\<lparr>h_functions := extract_functions content (h_functions h0),
                          h_constants := extract_constants alnum content (h_constants h0)\<rparr>"
  define o1 where "o1 = out @ [msg_analyzing (h_source_file h0),
                         msg_analyzed (length (extract_functions content (h_functions h0)))]"
  define o3 where "o3 = (o1 @ [[]]) @ [msg_structure]
                  @ map (\<lambda>d. msg_directory (joinpath (h_target_dir h1) d)) directories
                  @ map (\<lambda>(p, text). msg_file p) (file_jobs h1)"
  have a: "analyze_source_file alnum h0 (out, fs) = (Inr h1, (o1, fs))"
    unfolding analyze_ok using c by (simp add: h1_def o1_def)
  have g: "generate_file_structure h1 (o1 @ [[]], fs) = (Inr (), (o3, fsB))"
    unfolding structure_ok using k[folded h1_def] by (auto simp: completes_def o3_def)
  have r: "generate_summary_report h1 (o3 @ [[]], fsB)
             = (Inr (), ((o3 @ [[]]) @ [msg_report (report_path (h_target_dir h1))], fs'))"
    unfolding report_ok using k[folded h1_def] by (simp add: completes_def)
  have "pipeline alnum h0 (out, fs)
          = (Inr (), (((o3 @ [[]]) @ [msg_report (report_path (h_target_dir h1))]) @ [[]] @ msg_done, fs'))"
    unfolding pipeline_def
    by (simp add: io_bind_apply io_then_apply a g r print_line_apply print_lines_apply)
  moreover have "((o3 @ [[]]) @ [msg_report (report_path (h_target_dir h1))]) @ [[]] @ msg_done = out'"
    by (simp add: o o3_def o1_def run_output_def h1_def)
  ultimately show ?L by simp
qed

lemma read_exists: "read_text fs name = Inr content \<Longrightarrow> os_exists fs name"
  unfolding read_text_def os_exists_def by (auto split: if_splits option.splits node.splits)

definition banner :: "ustr \<Rightarrow> ustr \<Rightarrow> ustr list" where
  "banner source_file target_dir = [msg_start, msg_source source_file, msg_target target_dir, []]"

lemma main_ok:
  "main alnum argv fs = (0, out, fs')
   \<longleftrightarrow> length argv = 3
     \<and> (\<exists>content fsA fsB.
           read_text fs (argv ! 1) = Inr content
         \<and> completes (analysed alnum (argv ! 1) (Path (argv ! 2)) content) fs fsA fsB fs'
         \<and> out = banner (argv ! 1) (argv ! 2)
                   @ run_output (analysed alnum (argv ! 1) (Path (argv ! 2)) content))"
  (is "?L \<longleftrightarrow> ?R")
proof (cases "length argv = 3 \<and> os_exists fs (argv ! 1)")
  case False
  then show ?thesis by (auto simp: main_def Let_def dest: read_exists)
next
  case True
  define h0 where "h0 = \<lparr>h_source_file = argv ! 1, h_target_dir = Path (argv ! 2),
                            h_functions = [], h_constants = []\<rparr>"
  have h1: "h0\<lparr>h_functions := extract_functions content (h_functions h0),
              h_constants := extract_constants alnum content (h_constants h0)\<rparr>
          = analysed alnum (argv ! 1) (Path (argv ! 2)) content" for content
    by (simp add: h0_def analysed_def)
  have "?L \<longleftrightarrow> pipeline alnum h0 (banner (argv ! 1) (argv ! 2), fs) = (Inr (), (out, fs'))"
    using True unfolding main_def Let_def h0_def[symmetric] banner_def[symmetric]
    by (auto split: prod.splits sum.splits)
  also have "\<dots> \<longleftrightarrow> ?R"
    unfolding pipeline_ok h1 using True by (simp add: h0_def)
  finally show ?thesis .
qed


end
